theory Spec2Isabelle
  imports Complex_Main "HOL-Library.Log_Nat"
begin

section \<open>Browser local storage\<close>

text \<open>
  Every hook of the application keeps its data under one key of \<open>localStorage\<close> and
  rewrites the whole value on each mutation. A cell models the value under one key:
  \<open>item\<close> is \<open>None\<close> while the key is absent (\<open>getItem\<close> returns \<open>null\<close>).
  \<open>setItem\<close> throws when the quota is exceeded or storage is disabled; the hooks wrap
  every write in \<open>try/catch\<close> and only log the error, so a failed write leaves the cell
  as it was. Values are kept as the data that \<open>JSON.stringify\<close> serialises, in the order
  in which it serialises them.
\<close>

record 'v local_storage =
  item :: "'v option"
  quota_exceeded :: bool

definition setItem :: "'v \<Rightarrow> 'v local_storage \<Rightarrow> 'v local_storage option" where
  "setItem v ls = (if quota_exceeded ls then None else Some (ls\<lparr>item := Some v\<rparr>))"

definition trySetItem :: "'v \<Rightarrow> 'v local_storage \<Rightarrow> 'v local_storage" where
  \<comment> \<open>\<open>try { localStorage.setItem(key, JSON.stringify(v)) } catch (error) { console.warn(...) }\<close>\<close>
  "trySetItem v ls = (case setItem v ls of None \<Rightarrow> ls | Some ls' \<Rightarrow> ls')"

section \<open>Revision store (useRevisionToggle)\<close>

text \<open>
  \<open>revisionQuestions\<close> is a JavaScript \<open>Set<string>\<close>: its elements are distinct and it
  iterates in insertion order, which is the order \<open>Array.from(newSet)\<close> writes to storage.
  The model keeps the set as the list of its elements in insertion order.
\<close>

record revision_state =
  revisionQuestions :: "string list"
  revisionStorage :: "string list local_storage"

definition setAdd :: "'a \<Rightarrow> 'a list \<Rightarrow> 'a list" where
  \<comment> \<open>\<open>Set.prototype.add\<close>: a new element goes last, a present one keeps its place\<close>
  "setAdd x xs = (if x \<in> set xs then xs else xs @ [x])"

definition setDelete :: "'a \<Rightarrow> 'a list \<Rightarrow> 'a list" where
  "setDelete x xs = removeAll x xs"




definition toggleRevision :: "string \<Rightarrow> revision_state \<Rightarrow> revision_state" where
  "toggleRevision questionId st =
     (let prev = revisionQuestions st;
          newSet = (if questionId \<in> set prev then setDelete questionId prev
                    else setAdd questionId prev)
      in st\<lparr>revisionQuestions := newSet,
             revisionStorage := trySetItem newSet (revisionStorage st)\<rparr>)"



section \<open>JavaScript numbers and strings\<close>

text \<open>
  Counts, marks and millisecond time stamps are integers far below \<open>2^53\<close>, where
  JavaScript's arithmetic on them is exact; they are modelled as \<open>nat\<close> and \<open>int\<close>.
  A quotient is not exact: \<open>a / b\<close> and \<open>x * 100\<close> are IEEE 754 binary64 operations, each
  returning the double nearest to the exact result (ties to the even significand).
  \<open>toDouble\<close> is that rounding on the rationals, for the normal range of binary64
  (magnitudes from \<open>2^-1022\<close> up to \<open>2^1024\<close>; the quotients and percentages of this
  program lie well inside it). \<open>Math.round\<close> returns the nearest integer, a tie going
  towards \<open>+\<infinity>\<close>; on a double that is \<open>\<lfloor>x + 1/2\<rfloor>\<close>, HOL's \<open>round\<close>.
\<close>

definition pow2 :: "int \<Rightarrow> rat" where
  "pow2 e = (if 0 \<le> e then 2 ^ nat e else 1 / 2 ^ nat (- e))"

definition binade :: "rat \<Rightarrow> int" where
  \<comment> \<open>the exponent \<open>e\<close> with \<open>2^e \<le> a < 2^(e+1)\<close>, for \<open>a > 0\<close>\<close>
  "binade a = (let (p, q) = quotient_of a; c = bitlen p - bitlen q
               in if pow2 c \<le> a then c else c - 1)"

definition roundHalfEven :: "rat \<Rightarrow> int" where
  "roundHalfEven m =
     (let f = \<lfloor>m\<rfloor>; r = m - of_int f
      in if r < 1/2 then f else if 1/2 < r then f + 1 else if even f then f else f + 1)"

definition toDouble :: "rat \<Rightarrow> rat" where
  \<comment> \<open>53 significant bits: the unit in the last place of \<open>a\<close> is \<open>2^(binade a - 52)\<close>\<close>
  "toDouble x =
     (if x = 0 then 0
      else let a = \<bar>x\<bar>; ulp = pow2 (binade a - 52)
           in sgn x * (of_int (roundHalfEven (a / ulp)) * ulp))"

definition ddiv :: "rat \<Rightarrow> rat \<Rightarrow> rat" where
  \<comment> \<open>\<open>x / y\<close> on doubles, for \<open>y \<noteq> 0\<close>\<close>
  "ddiv x y = toDouble (x / y)"

definition dmul :: "rat \<Rightarrow> rat \<Rightarrow> rat" where
  \<comment> \<open>\<open>x * y\<close> on doubles\<close>
  "dmul x y = toDouble (x * y)"

definition Math_round :: "rat \<Rightarrow> int" where
  "Math_round x = round x"

definition percentOf :: "int \<Rightarrow> int \<Rightarrow> int" where
  \<comment> \<open>\<open>Math.round((part / whole) * 100)\<close>, for \<open>whole \<noteq> 0\<close>\<close>
  "percentOf part whole = Math_round (dmul (ddiv (of_int part) (of_int whole)) 100)"

definition secondsBetween :: "int \<Rightarrow> int \<Rightarrow> int" where
  \<comment> \<open>\<open>Math.round((endTime.getTime() - startTime.getTime()) / 1000)\<close>\<close>
  "secondsBetween startMs endMs = Math_round (ddiv (of_int (endMs - startMs)) 1000)"

text \<open>
  Identifiers, keys and messages are lists of characters. \<open>showInt\<close> is the decimal
  numeral that a template literal prints for an integer; \<open>startsWith\<close> and \<open>strIncludes\<close>
  are \<open>String.prototype.startsWith\<close> and \<open>String.prototype.includes\<close>.

  Where the code looks into a string with a regular expression or with \<open>trim()\<close> (the
  body of a response, the texts of a question paper), the string is a \<open>utf16\<close>: the list
  of its UTF-16 code units, which is what a JavaScript string is and what a regular
  expression without the flag \<open>u\<close> matches, one unit at a time. \<open>ascii\<close> turns a literal
  of the source that has ASCII characters only into its code units.
\<close>

definition digitChar :: "int \<Rightarrow> char" where
  "digitChar d = ''0123456789'' ! nat d"

function showDigits :: "int \<Rightarrow> string" where
  "showDigits n =
     (if n < 10 then [digitChar n] else showDigits (n div 10) @ [digitChar (n mod 10)])"
  by pat_completeness auto
termination
  by (relation "measure nat") auto

definition showInt :: "int \<Rightarrow> string" where
  "showInt i = (if i < 0 then CHR ''-'' # showDigits (- i) else showDigits i)"

fun startsWith :: "'a list \<Rightarrow> 'a list \<Rightarrow> bool" where
  "startsWith s [] = True"
| "startsWith [] (p # ps) = False"
| "startsWith (c # cs) (p # ps) = (c = p \<and> startsWith cs ps)"

fun strIncludes :: "'a list \<Rightarrow> 'a list \<Rightarrow> bool" where
  "strIncludes [] pat = (pat = [])"
| "strIncludes (c # cs) pat = (startsWith (c # cs) pat \<or> strIncludes cs pat)"

type_synonym utf16 = "int list"

definition codeUnit :: "char \<Rightarrow> int" where
  "codeUnit c = of_char c"

definition ascii :: "string \<Rightarrow> utf16" where
  "ascii s = map codeUnit s"

section \<open>Quiz history store (useQuizHistory)\<close>

text \<open>
  The records follow the interfaces \<open>QuizQuestionResult\<close> and \<open>QuizAttempt\<close>. A field
  whose name another interface uses as well carries a prefix: \<open>qr_questionId\<close>,
  \<open>qr_timeSpent\<close> and \<open>pi_paperId\<close> are \<open>questionId\<close>, \<open>timeSpent\<close> and
  \<open>paperInfo.paperId\<close>; \<open>attemptId\<close> and \<open>qa_paperId\<close> are \<open>id\<close> and \<open>paperId\<close> of an
  attempt. A \<open>Date\<close> is its \<open>getTime()\<close>, the milliseconds since the epoch.
\<close>

record quiz_filters =
  subjects :: "string list"
  minMarks :: int
  maxMarks :: int
  selectedTags :: "string list"
  revisionOnly :: bool

record paper_info =
  filename :: string
  examination :: string
  subject_code :: string
  subject_name :: string
  pi_paperId :: string

record quiz_question_result =
  qr_questionId :: string
  questionNo :: string
  subQuestionNo :: string
  marks :: nat
  qr_timeSpent :: int
  userAnswer :: string
  isCorrect :: bool
  confidence :: int
  difficulty :: int
  paperInfo :: "paper_info option"
  questionText :: "string option"

record quiz_attempt =
  attemptId :: string
  qa_paperId :: string
  startTime :: int
  endTime :: int
  duration :: int
  totalQuestions :: nat
  correctAnswers :: nat
  score :: int
  questions :: "quiz_question_result list"
  filters :: "quiz_filters option"
  isHidden :: bool

record quiz_state =
  attempts :: "quiz_attempt list"
  quizStorage :: "quiz_attempt list local_storage"

definition isInvalidAttempt :: "quiz_attempt \<Rightarrow> bool" where
  "isInvalidAttempt attempt =
     (duration attempt = 0 \<and> length (questions attempt) = 0 \<and>
      correctAnswers attempt = 0 \<and> score attempt = 0)"

definition loadQuizHistory :: "quiz_state \<Rightarrow> quiz_state" where
  \<comment> \<open>the mount effect; a throwing \<open>setItem\<close> leaves the \<open>try\<close> block before \<open>setAttempts\<close>\<close>
  "loadQuizHistory st =
     (case item (quizStorage st) of
        None \<Rightarrow> st
      | Some parsedAttempts \<Rightarrow>
          let validAttempts = filter (\<lambda>attempt. \<not> isInvalidAttempt attempt) parsedAttempts
          in if length validAttempts \<noteq> length parsedAttempts
             then (case setItem validAttempts (quizStorage st) of
                     None \<Rightarrow> st
                   | Some ls \<Rightarrow> st\<lparr>attempts := validAttempts, quizStorage := ls\<rparr>)
             else st\<lparr>attempts := validAttempts\<rparr>)"

definition saveAttempts ::
  "quiz_attempt list \<Rightarrow> quiz_attempt list local_storage \<Rightarrow> quiz_attempt list local_storage"
where
  "saveAttempts newAttempts ls =
     (let validAttempts = filter (\<lambda>attempt. \<not> isInvalidAttempt attempt) newAttempts
      in trySetItem validAttempts ls)"

definition newAttemptId :: "int \<Rightarrow> string \<Rightarrow> string" where
  \<comment> \<open>\<open>`quiz-${Date.now()}-${Math.random().toString(36).substr(2, 9)}`\<close>; the second
      argument is the random suffix\<close>
  "newAttemptId now suffix = ''quiz-'' @ showInt now @ ''-'' @ suffix"

definition startQuizAttempt ::
  "int \<Rightarrow> string \<Rightarrow> int \<Rightarrow> string \<Rightarrow> 'q list \<Rightarrow> quiz_filters option \<Rightarrow> quiz_state
     \<Rightarrow> string \<times> quiz_state"
where
  \<comment> \<open>the clock is read twice: \<open>now\<close> is \<open>Date.now()\<close> in the id, \<open>startedAt\<close> is the
      \<open>new Date()\<close> that becomes both \<open>startTime\<close> and \<open>endTime\<close>\<close>
  "startQuizAttempt now suffix startedAt paperId qs fs st =
     (let newId = newAttemptId now suffix;
          newAttempt = \<lparr>attemptId = newId, qa_paperId = paperId, startTime = startedAt,
                        endTime = startedAt, duration = 0, totalQuestions = length qs,
                        correctAnswers = 0, score = 0, questions = [], filters = fs,
                        isHidden = False\<rparr>;
          updated = attempts st @ [newAttempt]
      in (newId, st\<lparr>attempts := updated, quizStorage := saveAttempts updated (quizStorage st)\<rparr>))"

definition totalMarksOf :: "quiz_question_result list \<Rightarrow> nat" where
  "totalMarksOf results = foldl (\<lambda>sum r. sum + marks r) 0 results"

definition earnedMarksOf :: "quiz_question_result list \<Rightarrow> nat" where
  "earnedMarksOf results = foldl (\<lambda>sum r. sum + marks r) 0 (filter isCorrect results)"

definition scoreOf :: "quiz_question_result list \<Rightarrow> int" where
  "scoreOf results =
     (let totalMarks = totalMarksOf results; earnedMarks = earnedMarksOf results
      in if totalMarks > 0 then percentOf (int earnedMarks) (int totalMarks) else 0)"

definition endAttempt :: "int \<Rightarrow> quiz_question_result list \<Rightarrow> quiz_attempt \<Rightarrow> quiz_attempt" where
  \<comment> \<open>the updated attempt that \<open>endQuizAttempt\<close> builds for the matching id\<close>
  "endAttempt now results attempt =
     attempt\<lparr>endTime := now,
              duration := secondsBetween (startTime attempt) now,
              correctAnswers := length (filter isCorrect results),
              score := scoreOf results,
              questions := results\<rparr>"

definition endQuizAttempt :: "int \<Rightarrow> string \<Rightarrow> quiz_question_result list \<Rightarrow> quiz_state \<Rightarrow> quiz_state" where
  "endQuizAttempt now aid results st =
     (let updated = map (\<lambda>attempt. if attemptId attempt = aid
                                    then endAttempt now results attempt else attempt)
                        (attempts st)
      in st\<lparr>attempts := filter (\<lambda>attempt. \<not> isInvalidAttempt attempt) updated,
             quizStorage := saveAttempts updated (quizStorage st)\<rparr>)"

definition hideAttempt :: "string \<Rightarrow> quiz_state \<Rightarrow> quiz_state" where
  "hideAttempt aid st =
     (let updated = map (\<lambda>attempt. if attemptId attempt = aid
                                    then attempt\<lparr>isHidden := True\<rparr> else attempt) (attempts st)
      in st\<lparr>attempts := updated, quizStorage := saveAttempts updated (quizStorage st)\<rparr>)"

definition showAttempt :: "string \<Rightarrow> quiz_state \<Rightarrow> quiz_state" where
  "showAttempt aid st =
     (let updated = map (\<lambda>attempt. if attemptId attempt = aid
                                    then attempt\<lparr>isHidden := False\<rparr> else attempt) (attempts st)
      in st\<lparr>attempts := updated, quizStorage := saveAttempts updated (quizStorage st)\<rparr>)"

definition deleteAttempt :: "string \<Rightarrow> quiz_state \<Rightarrow> quiz_state" where
  "deleteAttempt aid st =
     (let updated = filter (\<lambda>attempt. attemptId attempt \<noteq> aid) (attempts st)
      in st\<lparr>attempts := updated, quizStorage := saveAttempts updated (quizStorage st)\<rparr>)"

definition cleanupInvalidAttempts :: "quiz_state \<Rightarrow> quiz_state" where
  "cleanupInvalidAttempts st =
     (let validAttempts = filter (\<lambda>attempt. \<not> isInvalidAttempt attempt) (attempts st);
          removedCount = length (attempts st) - length validAttempts
      in if removedCount > 0
         then st\<lparr>attempts := validAttempts,
                 quizStorage := saveAttempts validAttempts (quizStorage st)\<rparr>
         else st)"

definition visibleAttempts :: "quiz_state \<Rightarrow> quiz_attempt list" where
  "visibleAttempts st = filter (\<lambda>a. \<not> isHidden a) (attempts st)"

definition resultWith :: "string \<Rightarrow> nat \<Rightarrow> bool \<Rightarrow> quiz_question_result" where
  \<comment> \<open>the result of one answered question, as \<open>QuizMode\<close> builds it, for the examples\<close>
  "resultWith qid m correct =
     \<lparr>qr_questionId = qid, questionNo = takeWhile (\<lambda>c. c \<noteq> CHR ''_'') qid,
      subQuestionNo = drop 1 (dropWhile (\<lambda>c. c \<noteq> CHR ''_'') qid), marks = m,
      qr_timeSpent = 30, userAnswer = ''answer'', isCorrect = correct, confidence = 3,
      difficulty = 5, paperInfo = None, questionText = None\<rparr>"

section \<open>Progress store (useProgressTracking)\<close>

text \<open>
  \<open>QuestionProgress\<close> and \<open>StudySession\<close> as records; \<open>ss_startTime\<close>, \<open>ss_endTime\<close> and
  \<open>ss_duration\<close> are the fields \<open>startTime\<close>, \<open>endTime\<close> and \<open>duration\<close> of a session, and
  the fields of the active session carry the prefix \<open>as_\<close>. An optional field
  (\<open>completedAt?\<close>, \<open>lastStudied?\<close>) is an \<open>option\<close>. The store is a \<open>Map\<close> from the
  global key to the record; the whole map is written under \<open>progress-tracking-global\<close>
  on every mutation.
\<close>

datatype session_type = Study | Quiz | Revision

record study_session =
  ss_startTime :: int
  ss_endTime :: "int option"
  ss_duration :: int
  sessionType :: session_type

record question_progress =
  questionId :: string
  paperId :: string
  completed :: bool
  completedAt :: "int option"
  timeSpent :: int
  reviewCount :: int
  lastStudied :: "int option"
  confidenceLevel :: int
  studySessions :: "study_session list"

record active_session =
  as_questionId :: string
  as_paperId :: string
  as_startTime :: int
  as_sessionType :: session_type

record progress_state =
  questionProgress :: "string \<rightharpoonup> question_progress"
  activeSession :: "active_session option"
  progressStorage :: "(string \<rightharpoonup> question_progress) local_storage"

definition defaultQuestionProgress :: "string \<Rightarrow> string \<Rightarrow> question_progress" where
  \<comment> \<open>\<open>{ questionId, paperId, ...defaultQuestionProgress }\<close>\<close>
  "defaultQuestionProgress qid pid =
     \<lparr>questionId = qid, paperId = pid, completed = False, completedAt = None,
      timeSpent = 0, reviewCount = 0, lastStudied = None, confidenceLevel = 0,
      studySessions = []\<rparr>"

definition createGlobalKey :: "string \<Rightarrow> string \<Rightarrow> string option \<Rightarrow> string" where
  \<comment> \<open>\<open>`${currentPaperId || paperId}::${questionId}`\<close>; the first argument is the hook's
      \<open>paperId\<close>, the last the optional \<open>currentPaperId\<close> (an empty string is falsy)\<close>
  "createGlobalKey pid qid currentPaperId =
     (case currentPaperId of
        None \<Rightarrow> pid
      | Some c \<Rightarrow> if c = [] then pid else c) @ ''::'' @ qid"

definition getQuestionProgress :: "string \<Rightarrow> progress_state \<Rightarrow> string \<Rightarrow> question_progress" where
  "getQuestionProgress pid st qid =
     (case questionProgress st (createGlobalKey pid qid None) of
        Some p \<Rightarrow> p
      | None \<Rightarrow> defaultQuestionProgress qid pid)"





definition saveProgress ::
  "(string \<rightharpoonup> question_progress) \<Rightarrow> (string \<rightharpoonup> question_progress) local_storage
     \<Rightarrow> (string \<rightharpoonup> question_progress) local_storage"
where
  "saveProgress newProgress ls = trySetItem newProgress ls"


definition startStudySession ::
  "int \<Rightarrow> string \<Rightarrow> string \<Rightarrow> session_type \<Rightarrow> progress_state \<Rightarrow> progress_state"
where
  "startStudySession now pid qid ty st =
     (let prev = questionProgress st;
          globalKey = createGlobalKey pid qid None;
          current = (case prev globalKey of
                       Some p \<Rightarrow> p
                     | None \<Rightarrow> defaultQuestionProgress qid pid);
          updated = current\<lparr>reviewCount := reviewCount current + 1,
                            lastStudied := Some now,
                            questionId := qid, paperId := pid\<rparr>;
          newProgress = prev(globalKey \<mapsto> updated)
      in st\<lparr>activeSession := Some \<lparr>as_questionId = qid, as_paperId = pid,
                                     as_startTime = now, as_sessionType = ty\<rparr>,
             questionProgress := newProgress,
             progressStorage := saveProgress newProgress (progressStorage st)\<rparr>)"







section \<open>Progress statistics: exam readiness and streak\<close>

text \<open>
  The questions of the current paper, as far as the statistics read them. \<open>q_marks\<close> is
  the field \<open>marks\<close> of a question, a non-negative integer. \<open>allProgressValues\<close> is
  \<open>Array.from(questionProgress.values())\<close>, the records of the store as a list.
\<close>

record question =
  question_no :: string
  sub_question_no :: string
  q_marks :: nat
  tags :: "string list"
  rating :: "int option"

definition questionIdOf :: "question \<Rightarrow> string" where
  \<comment> \<open>\<open>`${question.question_no}_${question.sub_question_no}`\<close>\<close>
  "questionIdOf q = question_no q @ ''_'' @ sub_question_no q"

definition sevenDaysMs :: int where
  "sevenDaysMs = 7 * 24 * 60 * 60 * 1000"

definition studiedRecently :: "int \<Rightarrow> question_progress \<Rightarrow> bool" where
  \<comment> \<open>\<open>progress.lastStudied && Date.now() - progress.lastStudied.getTime() < 7 * 24 * 60 * 60 * 1000\<close>\<close>
  "studiedRecently now progress =
     (case lastStudied progress of None \<Rightarrow> False | Some t \<Rightarrow> now - t < sevenDaysMs)"

definition questionScore :: "int \<Rightarrow> question_progress \<Rightarrow> nat \<Rightarrow> nat" where
  "questionScore now progress m =
     (if completed progress then m else 0)
     + (if confidenceLevel progress \<ge> 4 then m else 0)
     + (if studiedRecently now progress then m else 0)"

definition readinessTotals :: "int \<Rightarrow> string \<Rightarrow> progress_state \<Rightarrow> question list \<Rightarrow> nat \<times> nat" where
  \<comment> \<open>the loop over \<open>allQuestions\<close>: the pair \<open>(totalScore, maxScore)\<close> it ends with\<close>
  "readinessTotals now pid st allQuestions =
     foldl (\<lambda>(totalScore, maxScore) q.
              let progress = getQuestionProgress pid st (questionIdOf q);
                  m = q_marks q
              in (totalScore + questionScore now progress m, maxScore + m * 3))
           (0, 0) allQuestions"

definition calculateExamReadiness ::
  "int \<Rightarrow> string \<Rightarrow> progress_state \<Rightarrow> question list \<Rightarrow> int option"
where
  \<comment> \<open>\<open>None\<close> is \<open>NaN\<close>, the value of \<open>Math.round((0 / 0) * 100)\<close>\<close>
  "calculateExamReadiness now pid st allQuestions =
     (if length allQuestions = 0 then Some 0
      else let (totalScore, maxScore) = readinessTotals now pid st allQuestions
           in if maxScore = 0 then None
              else Some (percentOf (int totalScore) (int maxScore)))"

definition questionWith :: "string \<Rightarrow> string \<Rightarrow> nat \<Rightarrow> question" where
  \<comment> \<open>a question of the paper with the given numbers and marks, for the examples\<close>
  "questionWith no sub m =
     \<lparr>question_no = no, sub_question_no = sub, q_marks = m, tags = [], rating = None\<rparr>"

definition masteredAt :: "int \<Rightarrow> string \<Rightarrow> string \<Rightarrow> question_progress" where
  \<comment> \<open>the record of a question completed and last studied at \<open>t\<close> with confidence 5,
      for the examples\<close>
  "masteredAt t qid pid =
     \<lparr>questionId = qid, paperId = pid, completed = True, completedAt = Some t,
      timeSpent = 120, reviewCount = 1, lastStudied = Some t, confidenceLevel = 5,
      studySessions = []\<rparr>"

text \<open>
  \<open>calculateStreak\<close>. \<open>d.setHours(0, 0, 0, 0); d.getTime()\<close> yields the instant at which
  the local calendar day of \<open>d\<close> began; it depends on the time zone of the browser, and
  is the parameter \<open>localMidnight\<close>. In a zone with a fixed offset from UTC it is
  \<open>fixedOffsetMidnight\<close>; \<open>easternMidnight\<close> is the same function for the zone
  America/New_York in the weeks around 10 March 2024, when clocks went from
  UTC-5 to UTC-4 at 07:00 UTC and the local day of 10 March lasted 23 hours.
\<close>

definition oneDayMs :: int where
  "oneDayMs = 24 * 60 * 60 * 1000"

definition fixedOffsetMidnight :: "int \<Rightarrow> int \<Rightarrow> int" where
  \<comment> \<open>local time is UTC plus \<open>offsetMs\<close>\<close>
  "fixedOffsetMidnight offsetMs t = t - (t + offsetMs) mod oneDayMs"

definition easternMidnight :: "int \<Rightarrow> int" where
  \<comment> \<open>\<open>1710129600000\<close> is 2024-03-11T04:00:00Z, the local midnight that began 11 March\<close>
  "easternMidnight t =
     (if t < 1710129600000 then fixedOffsetMidnight (- 5 * 60 * 60 * 1000) t
      else fixedOffsetMidnight (- 4 * 60 * 60 * 1000) t)"

definition uniqueDates :: "int list \<Rightarrow> int list" where
  \<comment> \<open>\<open>.filter((date, index, self) => self.indexOf(date) === index)\<close>: first occurrences\<close>
  "uniqueDates ds = map snd (filter (\<lambda>(i, d). d \<notin> set (take i ds)) (enumerate 0 ds))"

definition sortDescending :: "int list \<Rightarrow> int list" where
  \<comment> \<open>\<open>.sort((a, b) => b - a)\<close>\<close>
  "sortDescending ds = rev (sort ds)"

fun streakLoop :: "int list \<Rightarrow> nat \<Rightarrow> nat" where
  \<comment> \<open>the \<open>for\<close> loop from \<open>i = 1\<close>, on the dates from \<open>studyDates[i-1]\<close> on\<close>
  "streakLoop (a # b # rest) streak =
     (if a - b = oneDayMs then streakLoop (b # rest) (streak + 1) else streak)"
| "streakLoop [a] streak = streak"
| "streakLoop [] streak = streak"

definition studyDatesOf :: "(int \<Rightarrow> int) \<Rightarrow> question_progress list \<Rightarrow> int list" where
  "studyDatesOf localMidnight allProgressValues =
     sortDescending (uniqueDates (map localMidnight
       (List.map_filter lastStudied allProgressValues)))"

definition calculateStreak :: "(int \<Rightarrow> int) \<Rightarrow> int \<Rightarrow> question_progress list \<Rightarrow> nat" where
  "calculateStreak localMidnight now allProgressValues =
     (let studyDates = studyDatesOf localMidnight allProgressValues
      in case studyDates of
           [] \<Rightarrow> 0
         | first # others \<Rightarrow>
             let streak = streakLoop studyDates 1;
                 today = localMidnight now;
                 yesterday = today - oneDayMs
             in if first \<noteq> today \<and> first \<noteq> yesterday then 0 else streak)"

text \<open>
  The calendar reading of the streak, in the words of the specification: the number of
  the local day of an instant in a zone with a fixed offset, and the set of the days
  that have a last-studied date.
\<close>

definition dayNumber :: "int \<Rightarrow> int \<Rightarrow> int" where
  "dayNumber offsetMs t = (t + offsetMs) div oneDayMs"

definition studyDays :: "int \<Rightarrow> question_progress list \<Rightarrow> int set" where
  "studyDays offsetMs allProgressValues =
     dayNumber offsetMs ` {t. \<exists>p \<in> set allProgressValues. lastStudied p = Some t}"

section \<open>JSON values and the notes store (useNotesManager)\<close>

text \<open>
  What \<open>JSON.parse\<close> returns. An object is the list of its entries in the order of
  \<open>Object.entries\<close> (the insertion order, for keys that are not array indices);
  \<open>objSet\<close> is the assignment \<open>obj[key] = value\<close>, which keeps the place of a key that
  is present and appends a new one. The type parameter is the type of the string values:
  \<open>string\<close> for the notes, which are only copied, and \<open>utf16\<close> for a question paper, whose
  strings are cleaned with regular expressions.
\<close>

datatype 's json =
    JNull
  | JBool bool
  | JNum rat
  | JStr 's
  | JArr "'s json list"
  | JObj "(string \<times> 's json) list"

fun objSet :: "string \<Rightarrow> 'v \<Rightarrow> (string \<times> 'v) list \<Rightarrow> (string \<times> 'v) list" where
  "objSet key v [] = [(key, v)]"
| "objSet key v ((k, w) # kvs) =
     (if k = key then (k, v) # kvs else (k, w) # objSet key v kvs)"

definition objDelete :: "string \<Rightarrow> (string \<times> 'v) list \<Rightarrow> (string \<times> 'v) list" where
  "objDelete key kvs = filter (\<lambda>(k, w). k \<noteq> key) kvs"

definition objGet :: "(string \<times> 'v) list \<Rightarrow> string \<Rightarrow> 'v option" where
  "objGet kvs key = map_of kvs key"

text \<open>
  The notes are a \<open>Record<string, string>\<close> kept under \<open>gtu-learn-notes-v1\<close>. The mount
  effect reads the stored object, rewrites it into \<open>migratedNotes\<close> entry by entry, sets
  the state, and writes \<open>migratedNotes\<close> back when
  \<open>Object.keys(migratedNotes).some(key => !key.includes('::'))\<close>.
\<close>

text \<open>The state \<open>notes\<close> of the hook is the field \<open>notesMap\<close>.\<close>

record notes_state =
  notesMap :: "(string \<times> string) list"
  notesStorage :: "(string \<times> string json) list local_storage"

definition migrateEntry :: "(string \<times> string) list \<Rightarrow> string \<times> string json \<Rightarrow> (string \<times> string) list" where
  "migrateEntry migratedNotes entry =
     (case entry of
        (key, JStr v) \<Rightarrow>
          if strIncludes key ''::'' then objSet key v migratedNotes
          else objSet (''default::'' @ key) v migratedNotes
      | (key, _) \<Rightarrow> migratedNotes)"

definition migrateNotes :: "(string \<times> string json) list \<Rightarrow> (string \<times> string) list" where
  "migrateNotes loadedNotes = foldl migrateEntry [] loadedNotes"

definition notesJson :: "(string \<times> string) list \<Rightarrow> (string \<times> string json) list" where
  "notesJson m = map (\<lambda>(k, v). (k, JStr v)) m"

definition loadNotes :: "notes_state \<Rightarrow> notes_state" where
  "loadNotes st =
     (case item (notesStorage st) of
        None \<Rightarrow> st
      | Some loadedNotes \<Rightarrow>
          let migratedNotes = migrateNotes loadedNotes
          in if list_ex (\<lambda>key. \<not> strIncludes key ''::'') (map fst migratedNotes)
             then st\<lparr>notesMap := migratedNotes,
                     notesStorage := trySetItem (notesJson migratedNotes) (notesStorage st)\<rparr>
             else st\<lparr>notesMap := migratedNotes\<rparr>)"

definition saveNotes :: "(string \<times> string) list \<Rightarrow> notes_state \<Rightarrow> notes_state" where
  "saveNotes next st =
     st\<lparr>notesStorage := trySetItem (notesJson next) (notesStorage st), notesMap := next\<rparr>"

definition createNoteId :: "string \<Rightarrow> string \<Rightarrow> string" where
  "createNoteId qid pid = pid @ ''::'' @ qid"

definition getNote :: "notes_state \<Rightarrow> string \<Rightarrow> string \<Rightarrow> string" where
  \<comment> \<open>\<open>notes[noteId] || ''\<close>\<close>
  "getNote st qid pid = (case objGet (notesMap st) (createNoteId qid pid) of
                           None \<Rightarrow> [] | Some t \<Rightarrow> t)"

definition setNote :: "string \<Rightarrow> string \<Rightarrow> string \<Rightarrow> notes_state \<Rightarrow> notes_state" where
  "setNote qid t pid st = saveNotes (objSet (createNoteId qid pid) t (notesMap st)) st"

definition clearNote :: "string \<Rightarrow> string \<Rightarrow> notes_state \<Rightarrow> notes_state" where
  "clearNote qid pid st = saveNotes (objDelete (createNoteId qid pid) (notesMap st)) st"

section \<open>Text cleanup (cleanAnswerText, formatMathContent)\<close>

text \<open>
  The white space of \<open>\s\<close> and of \<open>trim()\<close> is the set that ECMAScript gives both: tab,
  line feed, vertical tab, form feed, carriage return, space, no-break space, the byte
  order mark and the Unicode space separators; line feed, carriage return, U+2028 and
  U+2029 are the line terminators that \<open>^\<close> and \<open>$\<close> see under the flag \<open>m\<close>.

  \<open>replaceAll\<close> is \<open>String.prototype.replace\<close> with a global pattern: it scans from the
  left, and where the pattern matches it emits the replacement and continues after the
  match. A pattern is a \<open>matcher\<close>: given the code unit before the position (for \<open>^\<close>)
  and the text from the position on, it returns the replacement and the length of the
  match that the backtracking search of the pattern finds first. No pattern here
  matches the empty string. \<open>truncateAt\<close> is \<open>replace\<close> with a pattern, not global, of the
  form \<open>literal[\s\S]*$\<close>, which removes the text from the first occurrence of the
  literal on.
\<close>

definition LF :: int where "LF = 0x0A"
definition CR :: int where "CR = 0x0D"
definition backslash :: int where "backslash = 0x5C"
definition dquote :: int where "dquote = 0x22"

definition isSpace :: "int \<Rightarrow> bool" where
  "isSpace c =
     (c \<in> set [0x09, 0x0A, 0x0B, 0x0C, 0x0D, 0x20, 0xA0, 0x1680, 0x2028, 0x2029, 0x202F,
               0x205F, 0x3000, 0xFEFF]
      \<or> 0x2000 \<le> c \<and> c \<le> 0x200A)"

definition isLineTerminator :: "int \<Rightarrow> bool" where
  "isLineTerminator c = (c \<in> set [0x0A, 0x0D, 0x2028, 0x2029])"

definition isLetter :: "int \<Rightarrow> bool" where
  \<comment> \<open>\<open>[a-zA-Z]\<close>\<close>
  "isLetter c = (c \<in> set (ascii ''abcdefghijklmnopqrstuvwxyzABCDEFGHIJKLMNOPQRSTUVWXYZ''))"

type_synonym matcher = "int option \<Rightarrow> utf16 \<Rightarrow> (utf16 \<times> nat) option"

function replaceAll :: "matcher \<Rightarrow> int option \<Rightarrow> utf16 \<Rightarrow> utf16" where
  "replaceAll m prev [] = []"
| "replaceAll m prev (c # cs) =
     (case m prev (c # cs) of
        None \<Rightarrow> c # replaceAll m (Some c) cs
      | Some (r, n) \<Rightarrow> r @ replaceAll m (Some ((c # cs) ! (n - 1))) (drop (n - 1) cs))"
  by pat_completeness auto
termination
  by (relation "measure (\<lambda>(m, prev, s). length s)") auto

fun matchesAnywhere :: "matcher \<Rightarrow> int option \<Rightarrow> utf16 \<Rightarrow> bool" where
  \<comment> \<open>the pattern matches at some position of the text\<close>
  "matchesAnywhere m prev [] = False"
| "matchesAnywhere m prev (c # cs) = (m prev (c # cs) \<noteq> None \<or> matchesAnywhere m (Some c) cs)"

fun truncateAt :: "utf16 \<Rightarrow> utf16 \<Rightarrow> utf16" where
  "truncateAt lit [] = []"
| "truncateAt lit (c # cs) = (if startsWith (c # cs) lit then [] else c # truncateAt lit cs)"

definition literal :: "utf16 \<Rightarrow> utf16 \<Rightarrow> matcher" where
  \<comment> \<open>a pattern that is one literal string\<close>
  "literal lit rep prev s = (if startsWith s lit then Some (rep, length lit) else None)"

definition delimited :: "utf16 \<Rightarrow> (int \<Rightarrow> bool) \<Rightarrow> utf16 \<Rightarrow> (utf16 \<Rightarrow> utf16) \<Rightarrow> matcher" where
  \<comment> \<open>\<open>open([class]+)close\<close>, where the class excludes the first code unit of \<open>close\<close>;
      the replacement is built from the group\<close>
  "delimited opening cls closing rep prev s =
     (if startsWith s opening
      then let body = drop (length opening) s;
               g = takeWhile cls body;
               rest = dropWhile cls body
           in if g \<noteq> [] \<and> startsWith rest closing
              then Some (rep g, length opening + length g + length closing)
              else None
      else None)"

definition latexCommand :: matcher where
  \<comment> \<open>\<open>/\\[a-zA-Z]+\{([^}]*)\}/\<close>, replaced by the group\<close>
  "latexCommand prev s =
     (case s of
        [] \<Rightarrow> None
      | c # cs \<Rightarrow>
          if c = backslash
          then let name = takeWhile isLetter cs; rest = dropWhile isLetter cs
               in (case rest of
                     [] \<Rightarrow> None
                   | b # body \<Rightarrow>
                       if name \<noteq> [] \<and> b = codeUnit CHR ''{''
                       then let g = takeWhile (\<lambda>x. x \<noteq> codeUnit CHR ''}'') body;
                                after = dropWhile (\<lambda>x. x \<noteq> codeUnit CHR ''}'') body
                            in if after \<noteq> [] then Some (g, length name + length g + 3)
                               else None
                       else None)
          else None)"

definition mathSymbols :: "(utf16 \<times> utf16) list" where
  \<comment> \<open>the literal replacements from \<open>\Rightarrow\<close> to \<open>\infty\<close>, in the order of the source;
      the replacement texts are the code units of the characters in the source file\<close>
  "mathSymbols =
     [(backslash # ascii ''Rightarrow'', [0x014C, 0x0107, 0x00C6]),
      (backslash # ascii ''rightarrow'', [0x014C, 0x00E5, 0x00C6]),
      (backslash # ascii ''leftarrow'', [0x014C, 0x00E5, 0x00C9]),
      (backslash # ascii ''le'', [0x014C, 0x0113, 0x017C]),
      (backslash # ascii ''ge'', [0x014C, 0x0113, 0x017A]),
      (backslash # ascii ''ne'', [0x014C, 0x0113, 0x0100]),
      (backslash # ascii ''pm'', [0x252C, 0x2592]),
      (backslash # ascii ''times'', [0x251C, 0x015A]),
      (backslash # ascii ''div'', [0x251C, 0x0118]),
      (backslash # ascii ''alpha'', [0x256C, 0x2592]),
      (backslash # ascii ''beta'', [0x256C, 0x2593]),
      (backslash # ascii ''gamma'', [0x256C, 0x2502]),
      (backslash # ascii ''delta'', [0x256C, 0x2524]),
      (backslash # ascii ''lambda'', [0x256C, 0x2557]),
      (backslash # ascii ''nabla'', [0x014C, 0x0142, 0x0107]),
      (backslash # ascii ''partial'', [0x014C, 0x0142, 0x00E9]),
      (backslash # ascii ''sum'', [0x014C, 0x0142, 0x00E6]),
      (backslash # ascii ''int'', [0x014C, 0x0142, 0x00BD]),
      (backslash # ascii ''infty'', [0x014C, 0x0142, 0x00D7])]"

definition inlineMath :: matcher where
  \<comment> \<open>\<open>/\$([^$]+)\$/\<close>\<close>
  "inlineMath = delimited (ascii ''$'') (\<lambda>c. c \<noteq> codeUnit CHR ''$'') (ascii ''$'')
     (\<lambda>g. ascii ''<span class='' @ dquote # ascii ''inline-math'' @ dquote # ascii ''>'' @ g
          @ ascii ''</span>'')"

definition displayMath :: matcher where
  \<comment> \<open>\<open>/\$\$([^$]+)\$\$/\<close>\<close>
  "displayMath = delimited (ascii ''$$'') (\<lambda>c. c \<noteq> codeUnit CHR ''$'') (ascii ''$$'')
     (\<lambda>g. ascii ''<div class='' @ dquote # ascii ''display-math'' @ dquote # ascii ''>'' @ g
          @ ascii ''</div>'')"

definition mathbf :: matcher where
  \<comment> \<open>\<open>/\\mathbf\{([^}]+)\}/\<close>\<close>
  "mathbf = delimited (backslash # ascii ''mathbf{'') (\<lambda>c. c \<noteq> codeUnit CHR ''}'') (ascii ''}'')
     (\<lambda>g. ascii ''<strong>'' @ g @ ascii ''</strong>'')"

definition textCommand :: matcher where
  \<comment> \<open>\<open>/\\text\{([^}]+)\}/\<close>\<close>
  "textCommand = delimited (backslash # ascii ''text{'') (\<lambda>c. c \<noteq> codeUnit CHR ''}'')
     (ascii ''}'') (\<lambda>g. g)"

definition quad :: matcher where
  "quad = literal (backslash # ascii ''quad'') (ascii ''&nbsp;&nbsp;&nbsp;&nbsp;'')"

definition lineBreak :: matcher where
  \<comment> \<open>\<open>/\\\\/\<close>: two backslashes\<close>
  "lineBreak = literal [backslash, backslash] (ascii ''<br>'')"

definition formatMathContent :: "utf16 \<Rightarrow> utf16" where
  "formatMathContent text =
     (if text = [] then []
      else
        let formatted = text;
            formatted = replaceAll inlineMath None formatted;
            formatted = replaceAll displayMath None formatted;
            formatted = replaceAll mathbf None formatted;
            formatted = replaceAll textCommand None formatted;
            formatted = replaceAll quad None formatted;
            formatted = foldl (\<lambda>t (pat, rep). replaceAll (literal pat rep) None t)
                          formatted mathSymbols;
            formatted = replaceAll latexCommand None formatted;
            formatted = replaceAll lineBreak None formatted
        in formatted)"

definition mathPatterns :: "matcher list" where
  \<comment> \<open>the patterns of \<open>formatMathContent\<close>, in the order in which it applies them\<close>
  "mathPatterns =
     [inlineMath, displayMath, mathbf, textCommand, quad]
     @ map (\<lambda>(pat, rep). literal pat rep) mathSymbols
     @ [latexCommand, lineBreak]"

text \<open>The patterns of \<open>cleanAnswerText\<close>.\<close>

definition expect :: "utf16 \<Rightarrow> utf16 \<Rightarrow> utf16 option" where
  \<comment> \<open>a literal, after optional white space (\<open>\s*literal\<close>): the text after it\<close>
  "expect lit s =
     (let t = dropWhile isSpace s
      in if startsWith t lit then Some (drop (length lit) t) else None)"

fun afterFirst :: "utf16 \<Rightarrow> utf16 \<Rightarrow> utf16 option" where
  \<comment> \<open>\<open>[\s\S]*?literal\<close>: the text after the first occurrence of the literal\<close>
  "afterFirst lit [] = (if lit = [] then Some [] else None)"
| "afterFirst lit (c # cs) =
     (if startsWith (c # cs) lit then Some (drop (length lit) (c # cs)) else afterFirst lit cs)"

definition tableRule :: matcher where
  \<comment> \<open>\<open>/\|\s*:\s*---\s*\|\s*:\s*---\s*\|[\s\S]*?\n\n/\<close>\<close>
  "tableRule prev s =
     (if startsWith s (ascii ''|'')
      then (case Option.bind (expect (ascii '':'') (drop 1 s))
                 (\<lambda>s. Option.bind (expect (ascii ''---'') s)
                 (\<lambda>s. Option.bind (expect (ascii ''|'') s)
                 (\<lambda>s. Option.bind (expect (ascii '':'') s)
                 (\<lambda>s. Option.bind (expect (ascii ''---'') s)
                 (\<lambda>s. Option.bind (expect (ascii ''|'') s)
                 (afterFirst [LF, LF])))))) of
              None \<Rightarrow> None
            | Some rest \<Rightarrow> Some ([], length s - length rest))
      else None)"

definition cellEnd :: "utf16 \<Rightarrow> utf16 option" where
  \<comment> \<open>\<open>\s*[^|]*\|\<close>: the text after the next \<open>|\<close>\<close>
  "cellEnd s =
     (case dropWhile (\<lambda>c. c \<noteq> codeUnit CHR ''|'') s of
        [] \<Rightarrow> None
      | bar # rest \<Rightarrow> Some rest)"

definition typeRow :: matcher where
  \<comment> \<open>\<open>/\|\s*Type\s*\|\s*[^|]*\|\s*[^|]*\|/\<close>\<close>
  "typeRow prev s =
     (if startsWith s (ascii ''|'')
      then (case Option.bind (expect (ascii ''Type'') (drop 1 s))
                 (\<lambda>s. Option.bind (expect (ascii ''|'') s)
                 (\<lambda>s. Option.bind (cellEnd s) cellEnd)) of
              None \<Rightarrow> None
            | Some rest \<Rightarrow> Some ([], length s - length rest))
      else None)"

definition newlineRun :: matcher where
  \<comment> \<open>\<open>/\n{3,}/\<close>, replaced by two line feeds\<close>
  "newlineRun prev s =
     (let run = takeWhile (\<lambda>c. c = LF) s
      in if 3 \<le> length run then Some ([LF, LF], length run) else None)"

fun lastIndexWhere :: "('a \<Rightarrow> bool) \<Rightarrow> 'a list \<Rightarrow> nat option" where
  "lastIndexWhere P [] = None"
| "lastIndexWhere P (c # cs) =
     (case lastIndexWhere P cs of
        Some i \<Rightarrow> Some (Suc i)
      | None \<Rightarrow> if P c then Some 0 else None)"

definition trailingSpace :: matcher where
  \<comment> \<open>\<open>/\s+$/m\<close>: the longest prefix of the white space at the position that ends at the
      end of the text or before a line terminator\<close>
  "trailingSpace prev s =
     (let run = takeWhile isSpace s; rest = dropWhile isSpace s
      in if run = [] then None
         else if rest = [] then Some ([], length run)
         else (case lastIndexWhere isLineTerminator run of
                 None \<Rightarrow> None
               | Some k \<Rightarrow> if 1 \<le> k then Some ([], k) else None))"

definition leadingSpace :: matcher where
  \<comment> \<open>\<open>/^\s+/m\<close>: white space at the start of the text or after a line terminator\<close>
  "leadingSpace prev s =
     (let run = takeWhile isSpace s
      in if run \<noteq> [] \<and> (case prev of None \<Rightarrow> True | Some p \<Rightarrow> isLineTerminator p)
         then Some ([], length run) else None)"

definition trim :: "utf16 \<Rightarrow> utf16" where
  "trim s = rev (dropWhile isSpace (rev (dropWhile isSpace s)))"

definition escapedDollar :: utf16 where "escapedDollar = [backslash, codeUnit CHR ''$'']"
definition escapedOpen :: utf16 where "escapedOpen = [backslash, codeUnit CHR ''['']"
definition escapedClose :: utf16 where "escapedClose = [backslash, codeUnit CHR '']'']"

definition cleanAnswerText :: "utf16 \<Rightarrow> utf16" where
  "cleanAnswerText text =
     (if text = [] then []
      else
        let cleaned = text;
            cleaned = replaceAll tableRule None cleaned;
            cleaned = replaceAll typeRow None cleaned;
            cleaned = truncateAt (ascii ''### **Memory Techniques**'') cleaned;
            cleaned = truncateAt (ascii ''**Memory Techniques:**'') cleaned;
            cleaned = replaceAll newlineRun None cleaned;
            cleaned = replaceAll trailingSpace None cleaned;
            cleaned = replaceAll leadingSpace None cleaned;
            cleaned = replaceAll (literal escapedDollar (ascii ''$'')) None cleaned;
            cleaned = replaceAll (literal escapedOpen (ascii ''['')) None cleaned;
            cleaned = replaceAll (literal escapedClose (ascii '']'')) None cleaned;
            cleaned = truncateAt (ascii ''[Image of'') cleaned;
            cleaned = truncateAt (ascii ''(Note:'') cleaned
        in trim cleaned)"

definition formatQuestionText :: "utf16 \<Rightarrow> utf16" where
  "formatQuestionText text = (if text = [] then [] else formatMathContent text)"

text \<open>
  The shape of a text that the white-space steps of \<open>cleanAnswerText\<close> leave behind:
  \<open>tidy p t\<close> says of the text \<open>t\<close> that follows the code unit \<open>p\<close> (or starts the
  text, for \<open>None\<close>) that no white space stands before or after a line terminator, at
  the start or at the end.
\<close>

definition consOpt :: "int option \<Rightarrow> utf16 \<Rightarrow> utf16" where
  "consOpt p t = (case p of None \<Rightarrow> t | Some c \<Rightarrow> c # t)"

fun noSpaceBeforeBreak :: "utf16 \<Rightarrow> bool" where
  "noSpaceBeforeBreak (a # b # rest) =
     (\<not> (isSpace a \<and> isLineTerminator b) \<and> noSpaceBeforeBreak (b # rest))"
| "noSpaceBeforeBreak [a] = True"
| "noSpaceBeforeBreak [] = True"

fun noSpaceAfterBreak :: "utf16 \<Rightarrow> bool" where
  "noSpaceAfterBreak (a # b # rest) =
     (\<not> (isLineTerminator a \<and> isSpace b) \<and> noSpaceAfterBreak (b # rest))"
| "noSpaceAfterBreak [a] = True"
| "noSpaceAfterBreak [] = True"

definition lastNonSpace :: "utf16 \<Rightarrow> bool" where
  "lastNonSpace t = (t = [] \<or> \<not> isSpace (last t))"

definition quiet :: "utf16 \<Rightarrow> bool" where
  \<comment> \<open>the white space at the start of the text has no line terminator and is followed
      by another code unit\<close>
  "quiet t = (dropWhile isSpace t \<noteq> [] \<and> (\<forall>x \<in> set (takeWhile isSpace t). \<not> isLineTerminator x))"

definition tidy :: "int option \<Rightarrow> utf16 \<Rightarrow> bool" where
  "tidy p t =
     (noSpaceBeforeBreak (consOpt p t) \<and> noSpaceAfterBreak (consOpt p t)
      \<and> lastNonSpace (consOpt p t) \<and> (p = None \<longrightarrow> t = [] \<or> \<not> isSpace (hd t)))"

section \<open>Paper loader (useQuestionPaper)\<close>

text \<open>
  \<open>loadQuestionPaper\<close> fetches \<open>/${filename}\<close>, reads the body as text, parses it and
  cleans the questions. Its inputs are what the platform returns: the outcome of
  \<open>fetch\<close> (a rejection, or a response with status, status text and body) and the
  outcome of \<open>JSON.parse\<close> on the body (\<open>Inl\<close> the message of the \<open>SyntaxError\<close>, \<open>Inr\<close> the
  value). The body and the strings of the parsed value are \<open>utf16\<close> texts; names and
  messages are \<open>string\<close>s. The code reports a failure as an \<open>Error\<close> with a message; the
  constructors of \<open>load_error\<close> name the \<open>throw\<close> statement that raised it and carry its message:
  \<open>NotFound\<close> is the throw for status 404, \<open>ServerError\<close> the throw for every other
  response that is not \<open>ok\<close>, \<open>InvalidFormat\<close> the throws for an HTML body and for a
  failed parse, and \<open>OtherError\<close> any error that the code does not raise itself (a
  rejected fetch, a \<open>TypeError\<close> in the clean-up).
\<close>

datatype fetch_outcome =
    Rejected string
  | Response int string utf16

datatype load_error =
    NotFound string
  | ServerError string
  | InvalidFormat string
  | OtherError string

definition responseOk :: "int \<Rightarrow> bool" where
  \<comment> \<open>\<open>response.ok\<close>: the status is in the range 200-299\<close>
  "responseOk status = (200 \<le> status \<and> status \<le> 299)"

definition truthy :: "utf16 json \<Rightarrow> bool" where
  "truthy v = (case v of
       JNull \<Rightarrow> False
     | JBool b \<Rightarrow> b
     | JNum n \<Rightarrow> n \<noteq> 0
     | JStr s \<Rightarrow> s \<noteq> []
     | JArr xs \<Rightarrow> True
     | JObj kvs \<Rightarrow> True)"

definition getProp :: "utf16 json \<Rightarrow> string \<Rightarrow> utf16 json option option" where
  \<comment> \<open>the property access \<open>v.key\<close> for the keys \<open>metadata\<close>, \<open>questions\<close>, \<open>answer\<close> and
      \<open>question_text\<close>: \<open>None\<close> is the \<open>TypeError\<close> on \<open>null\<close>, \<open>Some None\<close> is \<open>undefined\<close>\<close>
  "getProp v key = (case v of
       JNull \<Rightarrow> None
     | JObj kvs \<Rightarrow> Some (map_of kvs key)
     | _ \<Rightarrow> Some None)"

definition spreadProps :: "utf16 json \<Rightarrow> (string \<times> utf16 json) list" where
  \<comment> \<open>the own enumerable properties that \<open>{ ...v }\<close> copies; those of a string are its
      code units, under their indices\<close>
  "spreadProps v = (case v of
       JObj kvs \<Rightarrow> kvs
     | JArr xs \<Rightarrow> map (\<lambda>(i, x). (showInt (int i), x)) (enumerate 0 xs)
     | JStr s \<Rightarrow> map (\<lambda>(i, c). (showInt (int i), JStr [c])) (enumerate 0 s)
     | _ \<Rightarrow> [])"

definition cleanField :: "(utf16 \<Rightarrow> utf16) \<Rightarrow> utf16 json option \<Rightarrow> utf16 option" where
  \<comment> \<open>\<open>cleanAnswerText(v)\<close> and \<open>formatQuestionText(v)\<close> on a value as it comes from the
      paper: a falsy value gives the empty string, a string is cleaned, and any other
      value has no method \<open>replace\<close> and raises a \<open>TypeError\<close> (\<open>None\<close>)\<close>
  "cleanField f v = (case v of
       None \<Rightarrow> Some []
     | Some (JStr s) \<Rightarrow> Some (f s)
     | Some w \<Rightarrow> if truthy w then None else Some [])"

definition cleanQuestion :: "utf16 json \<Rightarrow> utf16 json" where
  \<comment> \<open>the callback of \<open>data.questions.map\<close>: the \<open>catch\<close> returns the question as it was\<close>
  "cleanQuestion question =
     (case Option.bind (getProp question ''answer'') (cleanField cleanAnswerText) of
        None \<Rightarrow> question
      | Some answer \<Rightarrow>
          (case Option.bind (getProp question ''question_text'') (cleanField formatQuestionText) of
             None \<Rightarrow> question
           | Some qtext \<Rightarrow>
               JObj (objSet ''question_text'' (JStr qtext)
                      (objSet ''answer'' (JStr answer) (spreadProps question)))))"

definition cleanData :: "utf16 json \<Rightarrow> load_error + utf16 json" where
  \<comment> \<open>\<open>if (data && data.questions) { data.questions = data.questions.map(...) }\<close>\<close>
  "cleanData data =
     (case data of
        JObj kvs \<Rightarrow>
          (case map_of kvs ''questions'' of
             None \<Rightarrow> Inr data
           | Some qs \<Rightarrow>
               if truthy qs
               then (case qs of
                       JArr xs \<Rightarrow> Inr (JObj (objSet ''questions'' (JArr (map cleanQuestion xs)) kvs))
                     | _ \<Rightarrow> Inl (OtherError ''data.questions.map is not a function''))
               else Inr data)
      | _ \<Rightarrow> Inr data)"

definition loadQuestionPaper ::
  "string \<Rightarrow> fetch_outcome \<Rightarrow> string + utf16 json \<Rightarrow> load_error + utf16 json"
where
  \<comment> \<open>\<open>JSON.parse\<close> returns \<open>null\<close> for the body \<open>null\<close>; the \<open>console.log\<close> inside the \<open>try\<close>
      then reads \<open>data.metadata\<close>, and the \<open>TypeError\<close> is reported as a parse error, with
      the message that V8 gives it\<close>
  "loadQuestionPaper fname outcome parsed =
     (case outcome of
        Rejected msg \<Rightarrow> Inl (OtherError msg)
      | Response status statusText body \<Rightarrow>
          if \<not> responseOk status
          then if status = 404
               then Inl (NotFound (''Question paper file '' @ CHR 0x22 # fname @ CHR 0x22
                      # '' not found. Please check if the file exists in the public folder.''))
               else Inl (ServerError (''Failed to load question paper: '' @ showInt status
                      @ '' '' @ statusText))
          else if startsWith (trim body) (ascii ''<'')
          then Inl (InvalidFormat (''Received HTML content instead of JSON. This usually means the file ''
                      @ CHR 0x22 # fname @ CHR 0x22
                      # '' was not found or the server returned an error page.''))
          else (case parsed of
                  Inl msg \<Rightarrow>
                    Inl (InvalidFormat (''JSON Parse Error: '' @ msg
                           @ ''. Check console for detailed debugging info.''))
                | Inr data \<Rightarrow>
                    if data = JNull
                    then Inl (InvalidFormat
                           (''JSON Parse Error: Cannot read properties of null (reading ''
                            @ CHR 0x27 # ''metadata'' @ CHR 0x27
                            # ''). Check console for detailed debugging info.''))
                    else cleanData data))"

definition hasMetadataAndQuestions :: "utf16 json \<Rightarrow> bool" where
  \<comment> \<open>the shape that the specification asks of a paper: an object with both keys\<close>
  "hasMetadataAndQuestions data =
     (case data of
        JObj kvs \<Rightarrow> map_of kvs ''metadata'' \<noteq> None \<and> map_of kvs ''questions'' \<noteq> None
      | _ \<Rightarrow> False)"

section \<open>Double-precision percentages\<close>

text \<open>
  The error of one rounding to binary64 is at most half a unit in the last place, that
  is, at most \<open>2^-53\<close> relative to the value. A percentage
  \<open>Math.round((part / whole) * 100)\<close> is computed with two such roundings; the
  result is the exactly rounded percentage unless \<open>100 * part / whole\<close> lies exactly
  halfway between two integers, where the double can fall just below the tie.
\<close>

lemma pow2_pos: "0 < pow2 e"
  by (simp add: pow2_def)

lemma pow2_nat: "pow2 (int n) = 2 ^ n"
  by (simp add: pow2_def)

lemma pow2_powi: "pow2 e = 2 powi e"
  by (simp add: pow2_def power_int_def field_simps)

lemma pow2_add: "pow2 (a + b) = pow2 a * pow2 b"
  by (simp add: pow2_powi power_int_add)

lemma pow2_diff: "pow2 (a - b) = pow2 a / pow2 b"
  by (simp add: pow2_powi power_int_diff)

lemma binade_lower:
  assumes "0 < a"
  shows "pow2 (binade a) \<le> a"
proof -
  obtain p q where pq: "quotient_of a = (p, q)" by (cases "quotient_of a")
  then have q: "0 < q" by (rule quotient_of_denom_pos)
  from pq have a: "a = of_int p / of_int q" by (rule quotient_of_div)
  with assms q have p: "0 < p" by (simp add: zero_less_divide_iff)
  let ?c = "bitlen p - bitlen q"
  show ?thesis
  proof (cases "pow2 ?c \<le> a")
    case True
    with pq show ?thesis by (simp add: binade_def)
  next
    case False
    with pq have b: "binade a = ?c - 1" by (simp add: binade_def)
    have bp: "1 \<le> bitlen p" using p by (simp add: bitlen_alt_def)
    have bq: "1 \<le> bitlen q" using q by (simp add: bitlen_alt_def)
    have lp: "2 ^ nat (bitlen p - 1) \<le> p" using bitlen_bounds[OF p] by simp
    have uq: "q < 2 ^ nat (bitlen q)" using bitlen_bounds[OF q] by simp
    have "pow2 (bitlen p - 1) \<le> of_int p"
    proof -
      have "pow2 (bitlen p - 1) = of_int (2 ^ nat (bitlen p - 1))"
        using bp by (simp add: pow2_def)
      also have "\<dots> \<le> of_int p" using lp by (simp only: of_int_le_iff)
      finally show ?thesis .
    qed
    moreover have "of_int q \<le> pow2 (bitlen q)"
    proof -
      have "(of_int q :: rat) \<le> of_int (2 ^ nat (bitlen q))"
        using uq by (simp only: of_int_le_iff)
      also have "\<dots> = pow2 (bitlen q)" using bq by (simp add: pow2_def)
      finally show ?thesis .
    qed
    ultimately have "pow2 (bitlen p - 1) / pow2 (bitlen q) \<le> of_int p / of_int q"
      using q pow2_pos[of "bitlen p - 1"] pow2_pos[of "bitlen q"]
      by (intro frac_le) simp_all
    moreover have "pow2 (bitlen p - 1) / pow2 (bitlen q) = pow2 (?c - 1)"
      by (simp add: pow2_diff[symmetric] algebra_simps)
    ultimately show ?thesis using a b by simp
  qed
qed

lemma roundHalfEven_error: "\<bar>of_int (roundHalfEven m) - m\<bar> \<le> 1 / 2"
proof -
  have "of_int \<lfloor>m\<rfloor> \<le> m" "m < of_int \<lfloor>m\<rfloor> + 1" by linarith+
  then show ?thesis
    by (auto simp: roundHalfEven_def Let_def abs_le_iff)
qed

lemma toDouble_error:
  assumes "0 < a"
  shows "\<bar>toDouble a - a\<bar> \<le> a * pow2 (- 53)"
proof -
  let ?ulp = "pow2 (binade a - 52)"
  let ?n = "roundHalfEven (a / ?ulp)"
  have ulp: "0 < ?ulp" by (rule pow2_pos)
  have td: "toDouble a = of_int ?n * ?ulp"
    using assms by (simp add: toDouble_def Let_def)
  have "\<bar>of_int ?n - a / ?ulp\<bar> \<le> 1 / 2" by (rule roundHalfEven_error)
  then have "\<bar>of_int ?n - a / ?ulp\<bar> * ?ulp \<le> 1 / 2 * ?ulp"
    using ulp by (intro mult_right_mono) simp_all
  moreover have "\<bar>of_int ?n - a / ?ulp\<bar> * ?ulp = \<bar>of_int ?n * ?ulp - a\<bar>"
  proof -
    have "\<bar>of_int ?n - a / ?ulp\<bar> * ?ulp = \<bar>(of_int ?n - a / ?ulp) * ?ulp\<bar>"
      using ulp by (simp add: abs_mult)
    also have "(of_int ?n - a / ?ulp) * ?ulp = of_int ?n * ?ulp - a"
      using ulp by (simp add: field_simps)
    finally show ?thesis .
  qed
  moreover have "1 / 2 * ?ulp = pow2 (binade a) * pow2 (- 53)"
  proof -
    have "?ulp = pow2 (binade a + (- 52))" by simp
    also have "\<dots> = pow2 (binade a) * pow2 (- 52)" by (rule pow2_add)
    finally show ?thesis by (simp add: pow2_def)
  qed
  moreover have "pow2 (binade a) * pow2 (- 53) \<le> a * pow2 (- 53)"
    using binade_lower[OF assms] pow2_pos[of "- 53"] by (intro mult_right_mono) simp_all
  ultimately show ?thesis using td by simp
qed

lemma floor_stable:
  fixes y y' :: rat
  assumes "of_int R + d \<le> y" and "y \<le> of_int R + 1 - d" and "\<bar>y' - y\<bar> < d"
  shows "\<lfloor>y'\<rfloor> = R"
proof -
  from assms have "of_int R \<le> y'" "y' < of_int R + 1" by (auto simp: abs_less_iff)
  then show ?thesis by (simp add: floor_unique)
qed

lemma percent_error:
  fixes p w :: int
  assumes w: "0 < w" and p: "0 \<le> p" "p \<le> w"
  shows "\<bar>dmul (ddiv (of_int p) (of_int w)) 100 - 100 * of_int p / of_int w\<bar>
           \<le> 201 * pow2 (- 53)"
proof (cases "p = 0")
  case True
  then show ?thesis by (simp add: dmul_def ddiv_def toDouble_def pow2_def)
next
  case False
  let ?u = "pow2 (- 53)"
  let ?x = "of_int p / of_int w :: rat"
  let ?d = "toDouble ?x"
  have x0: "0 < ?x" using False p w by simp
  have x1: "?x \<le> 1" using p w by simp
  have u: "0 < ?u" "?u \<le> 1 / 100" by (simp_all add: pow2_def)
  have e1: "\<bar>?d - ?x\<bar> \<le> ?x * ?u" using x0 by (rule toDouble_error)
  have "?x * ?u \<le> 1 * ?u" using x1 u by (intro mult_right_mono) simp_all
  with e1 have e1': "\<bar>?d - ?x\<bar> \<le> ?u" by simp
  have "?x * ?u < ?x * 1" using x0 u by (intro mult_strict_left_mono) simp_all
  with e1 have d0: "0 < ?d" by (simp add: abs_le_iff)
  from e1' x1 have d1: "?d \<le> 1 + ?u" by (simp add: abs_le_iff)
  have e2: "\<bar>toDouble (?d * 100) - ?d * 100\<bar> \<le> (?d * 100) * ?u"
    using d0 by (intro toDouble_error) simp
  have "(?d * 100) * ?u \<le> ((1 + ?u) * 100) * ?u"
    using d1 u by (intro mult_right_mono) simp_all
  also have "\<dots> \<le> 101 * ?u"
    using u by (simp add: pow2_def)
  finally have e2': "\<bar>toDouble (?d * 100) - ?d * 100\<bar> \<le> 101 * ?u"
    using e2 by simp
  have "\<bar>toDouble (?d * 100) - 100 * ?x\<bar>
        \<le> \<bar>toDouble (?d * 100) - ?d * 100\<bar> + 100 * \<bar>?d - ?x\<bar>"
    by (simp add: abs_le_iff) (simp add: abs_if)
  also have "\<dots> \<le> 101 * ?u + 100 * ?u" using e2' e1' by simp
  finally show ?thesis by (simp add: dmul_def ddiv_def)
qed

lemma percentOf_exact:
  fixes p w :: int
  assumes w: "0 < w" "w < 2 ^ 44" and p: "0 \<le> p" "p \<le> w"
  shows "(\<not> 2 * w dvd 200 * p + w \<longrightarrow> percentOf p w = round (100 * of_int p / of_int w :: rat))
       \<and> round (100 * of_int p / of_int w :: rat) - 1 \<le> percentOf p w
       \<and> percentOf p w \<le> round (100 * of_int p / of_int w :: rat)"
proof -
  let ?x = "100 * of_int p / of_int w :: rat"
  let ?s = "dmul (ddiv (of_int p) (of_int w)) 100"
  let ?N = "200 * p + w"
  let ?D = "2 * w"
  let ?R = "?N div ?D"
  let ?d = "1 / of_int ?D :: rat"
  have D: "0 < ?D" using w by simp
  have y: "?x + 1 / 2 = of_int ?N / of_int ?D"
    using w by (simp add: field_simps)
  have R: "round ?x = ?R"
    unfolding round_def y by (simp only: floor_divide_of_int_eq)
  have split: "of_int ?N / of_int ?D = of_int ?R + of_int (?N mod ?D) / (of_int ?D :: rat)"
  proof -
    have "?N = ?D * ?R + ?N mod ?D" by simp
    then have "(of_int ?N :: rat) = of_int ?D * of_int ?R + of_int (?N mod ?D)"
      by (metis of_int_add of_int_mult)
    then show ?thesis using D by (simp add: field_simps)
  qed
  have err: "\<bar>(?s + 1 / 2) - (?x + 1 / 2)\<bar> \<le> 201 * pow2 (- 53)"
    using percent_error[OF w(1) p] by simp
  have small: "201 * pow2 (- 53) < ?d"
  proof -
    have "(of_int ?D :: rat) < of_int (2 ^ 45)"
      using w by (simp only: of_int_less_iff) simp
    then have "1 / (of_int (2 ^ 45) :: rat) < ?d"
      using D by (intro divide_strict_left_mono) simp_all
    moreover have "201 * pow2 (- 53) < 1 / (of_int (2 ^ 45) :: rat)"
      by (simp add: pow2_def)
    ultimately show ?thesis by simp
  qed
  have d1: "?d \<le> 1" using D by simp
  have pr: "percentOf p w = \<lfloor>?s + 1 / 2\<rfloor>"
    by (simp add: percentOf_def Math_round_def round_def)
  have exact: "percentOf p w = ?R" if "\<not> ?D dvd ?N"
  proof -
    from that have "?N mod ?D \<noteq> 0" by (simp add: dvd_eq_mod_eq_0)
    moreover have "0 \<le> ?N mod ?D" "?N mod ?D < ?D" using D by simp_all
    ultimately have m: "1 \<le> ?N mod ?D" "?N mod ?D \<le> ?D - 1" by linarith+
    have lo: "?d \<le> of_int (?N mod ?D) / (of_int ?D :: rat)"
      using m(1) D by (intro divide_right_mono) simp_all
    have "(of_int (?N mod ?D) :: rat) \<le> of_int (?D - 1)"
      using m(2) by (simp only: of_int_le_iff)
    then have "of_int (?N mod ?D) / (of_int ?D :: rat) \<le> of_int (?D - 1) / of_int ?D"
      using D by (intro divide_right_mono) simp_all
    also have "\<dots> = 1 - ?d" using D by (simp add: field_simps)
    finally have hi: "of_int (?N mod ?D) / (of_int ?D :: rat) \<le> 1 - ?d" .
    have "\<lfloor>?s + 1 / 2\<rfloor> = ?R"
    proof (rule floor_stable[where d = ?d and y = "?x + 1 / 2"])
      show "of_int ?R + ?d \<le> ?x + 1 / 2" using lo unfolding y split by linarith
      show "?x + 1 / 2 \<le> of_int ?R + 1 - ?d" using hi unfolding y split by linarith
      show "\<bar>?s + 1 / 2 - (?x + 1 / 2)\<bar> < ?d" using err small by linarith
    qed
    with pr show ?thesis by simp
  qed
  have near: "?R - 1 \<le> percentOf p w \<and> percentOf p w \<le> ?R"
  proof (cases "?D dvd ?N")
    case False
    then show ?thesis using exact by simp
  next
    case True
    then have "?N mod ?D = 0" by (simp add: dvd_eq_mod_eq_0)
    with split have yR: "?x + 1 / 2 = of_int ?R" by (simp add: y)
    from err small d1 have e: "\<bar>(?s + 1 / 2) - of_int ?R\<bar> < 1"
      unfolding yR by linarith
    then have "of_int (?R - 1) \<le> ?s + 1 / 2" "?s + 1 / 2 < of_int (?R + 1)"
      by (simp_all add: abs_less_iff)
    then have "?R - 1 \<le> \<lfloor>?s + 1 / 2\<rfloor>" "\<lfloor>?s + 1 / 2\<rfloor> < ?R + 1"
      by (simp_all only: le_floor_iff floor_less_iff)
    with pr show ?thesis by simp
  qed
  show ?thesis using exact near R by simp
qed

lemma percentOf_zero: "w \<noteq> 0 \<Longrightarrow> percentOf 0 w = 0"
  by (simp add: percentOf_def ddiv_def dmul_def toDouble_def Math_round_def)

lemma toDouble_1: "toDouble 1 = 1"
  by code_simp

lemma toDouble_100: "toDouble 100 = 100"
  by code_simp

lemma percentOf_whole: "w \<noteq> 0 \<Longrightarrow> percentOf w w = 100"
  by (simp add: percentOf_def ddiv_def dmul_def toDouble_1 toDouble_100 Math_round_def)

section \<open>Quiz history: what is persisted\<close>

lemma trySetItem_item:
  "\<not> quota_exceeded ls \<Longrightarrow> item (trySetItem v ls) = Some v"
  by (simp add: trySetItem_def setItem_def)

lemma trySetItem_quota:
  "quota_exceeded (trySetItem v ls) = quota_exceeded ls"
  by (simp add: trySetItem_def setItem_def)

lemma trySetItem_failed:
  "quota_exceeded ls \<Longrightarrow> trySetItem v ls = ls"
  by (simp add: trySetItem_def setItem_def)

lemma saveAttempts_item:
  "\<not> quota_exceeded ls \<Longrightarrow>
   item (saveAttempts xs ls) = Some (filter (\<lambda>a. \<not> isInvalidAttempt a) xs)"
  by (simp add: saveAttempts_def trySetItem_item)

lemma saveAttempts_quota:
  "quota_exceeded (saveAttempts xs ls) = quota_exceeded ls"
  by (simp add: saveAttempts_def trySetItem_quota)

lemma fresh_attempt_invalid:
  "isInvalidAttempt \<lparr>attemptId = i, qa_paperId = p, startTime = t, endTime = t', duration = 0,
      totalQuestions = n, correctAnswers = 0, score = 0, questions = [], filters = fs,
      isHidden = h\<rparr>"
  by (simp add: isInvalidAttempt_def)

lemma saveAttempts_failed:
  "quota_exceeded ls \<Longrightarrow> saveAttempts xs ls = ls"
  by (simp add: saveAttempts_def trySetItem_failed)

text \<open>
  Claim C1, as the code has it. \<open>startQuizAttempt\<close> returns the generated id and appends
  to the attempts held in memory a new attempt with that id, zero duration, zero correct
  answers, zero score and an empty result list. Such an attempt is what
  \<open>isInvalidAttempt\<close> recognises, and \<open>saveAttempts\<close> filters invalid attempts out before
  it writes. When the write succeeds, the value under \<open>quiz-history\<close> is the list of the
  valid attempts held before, and the new attempt is not in it; when \<open>setItem\<close> throws,
  the error is caught and storage stays as it was. In neither case does the call put the
  new attempt into storage.
\<close>

theorem C1_startQuizAttempt_not_persisted:
  assumes "startQuizAttempt now suffix startedAt pid qs fs st = (newId, st')"
  shows "newId = newAttemptId now suffix
       \<and> (\<exists>new. attempts st' = attempts st @ [new]
            \<and> attemptId new = newId \<and> qa_paperId new = pid
            \<and> startTime new = startedAt \<and> endTime new = startedAt
            \<and> duration new = 0 \<and> totalQuestions new = length qs
            \<and> correctAnswers new = 0 \<and> score new = 0 \<and> questions new = []
            \<and> filters new = fs \<and> \<not> isHidden new
            \<and> isInvalidAttempt new
            \<and> quizStorage st'
                = (if quota_exceeded (quizStorage st) then quizStorage st
                   else (quizStorage st)
                          \<lparr>item := Some (filter (\<lambda>a. \<not> isInvalidAttempt a) (attempts st))\<rparr>)
            \<and> (\<not> quota_exceeded (quizStorage st)
                 \<longrightarrow> new \<notin> set (the (item (quizStorage st')))))"
proof -
  let ?new = "\<lparr>attemptId = newAttemptId now suffix, qa_paperId = pid, startTime = startedAt,
                endTime = startedAt, duration = 0, totalQuestions = length qs,
                correctAnswers = 0, score = 0, questions = [], filters = fs,
                isHidden = False\<rparr>"
  let ?valid = "filter (\<lambda>a. \<not> isInvalidAttempt a) (attempts st)"
  let ?after = "if quota_exceeded (quizStorage st) then quizStorage st
                else (quizStorage st)\<lparr>item := Some ?valid\<rparr>"
  have inv: "isInvalidAttempt ?new"
    by (rule fresh_attempt_invalid)
  have id: "newId = newAttemptId now suffix"
    using assms by (simp add: startQuizAttempt_def Let_def)
  have st': "st' = st\<lparr>attempts := attempts st @ [?new],
                        quizStorage := saveAttempts (attempts st @ [?new]) (quizStorage st)\<rparr>"
    using assms by (auto simp: startQuizAttempt_def Let_def)
  have mem: "attempts st' = attempts st @ [?new]"
    by (simp add: st')
  have stored: "quizStorage st' = ?after"
    using inv by (simp add: st' saveAttempts_def trySetItem_def setItem_def)
  have notin: "\<not> quota_exceeded (quizStorage st) \<longrightarrow> ?new \<notin> set (the (item (quizStorage st')))"
    using inv by (simp add: stored)
  have fields: "attemptId ?new = newId \<and> qa_paperId ?new = pid
      \<and> startTime ?new = startedAt \<and> endTime ?new = startedAt
      \<and> duration ?new = 0 \<and> totalQuestions ?new = length qs
      \<and> correctAnswers ?new = 0 \<and> score ?new = 0 \<and> questions ?new = []
      \<and> filters ?new = fs \<and> \<not> isHidden ?new"
    by (simp add: id)
  from mem fields inv stored notin
  have "attempts st' = attempts st @ [?new]
      \<and> attemptId ?new = newId \<and> qa_paperId ?new = pid
      \<and> startTime ?new = startedAt \<and> endTime ?new = startedAt
      \<and> duration ?new = 0 \<and> totalQuestions ?new = length qs
      \<and> correctAnswers ?new = 0 \<and> score ?new = 0 \<and> questions ?new = []
      \<and> filters ?new = fs \<and> \<not> isHidden ?new
      \<and> isInvalidAttempt ?new
      \<and> quizStorage st' = ?after
      \<and> (\<not> quota_exceeded (quizStorage st)
           \<longrightarrow> ?new \<notin> set (the (item (quizStorage st'))))"
    by blast
  then have "\<exists>new. attempts st' = attempts st @ [new]
      \<and> attemptId new = newId \<and> qa_paperId new = pid
      \<and> startTime new = startedAt \<and> endTime new = startedAt
      \<and> duration new = 0 \<and> totalQuestions new = length qs
      \<and> correctAnswers new = 0 \<and> score new = 0 \<and> questions new = []
      \<and> filters new = fs \<and> \<not> isHidden new
      \<and> isInvalidAttempt new
      \<and> quizStorage st' = ?after
      \<and> (\<not> quota_exceeded (quizStorage st)
           \<longrightarrow> new \<notin> set (the (item (quizStorage st'))))"
    by (rule exI)
  with id show ?thesis by (rule conjI)
qed

theorem C1_startQuizAttempt_witness:
  "fst (startQuizAttempt 1754041200000 ''k3j9x2m1q'' 1754041200001 ''3110005_W2023''
         [1::nat, 2] None
         \<lparr>attempts = [], quizStorage = \<lparr>item = None, quota_exceeded = False\<rparr>\<rparr>)
     = newAttemptId 1754041200000 ''k3j9x2m1q''
   \<and> quizStorage (snd (startQuizAttempt 1754041200000 ''k3j9x2m1q'' 1754041200001
         ''3110005_W2023'' [1::nat, 2] None
         \<lparr>attempts = [], quizStorage = \<lparr>item = None, quota_exceeded = False\<rparr>\<rparr>))
     = \<lparr>item = Some [], quota_exceeded = False\<rparr>
   \<and> quizStorage (snd (startQuizAttempt 1754041200000 ''k3j9x2m1q'' 1754041200001
         ''3110005_W2023'' [1::nat, 2] None
         \<lparr>attempts = [], quizStorage = \<lparr>item = None, quota_exceeded = True\<rparr>\<rparr>))
     = \<lparr>item = None, quota_exceeded = True\<rparr>"
proof -
  let ?ok = "\<lparr>attempts = [], quizStorage = \<lparr>item = None, quota_exceeded = False\<rparr>\<rparr>"
  let ?full = "\<lparr>attempts = [], quizStorage = \<lparr>item = None, quota_exceeded = True\<rparr>\<rparr>"
  let ?start = "startQuizAttempt 1754041200000 ''k3j9x2m1q'' 1754041200001 ''3110005_W2023''
         [1::nat, 2] None"
  note T = C1_startQuizAttempt_not_persisted
  have a: "fst (?start ?ok) = newAttemptId 1754041200000 ''k3j9x2m1q''
      \<and> quizStorage (snd (?start ?ok)) = \<lparr>item = Some [], quota_exceeded = False\<rparr>"
    using T[of 1754041200000 "''k3j9x2m1q''" 1754041200001 "''3110005_W2023''" "[1::nat, 2]"
        None ?ok "fst (?start ?ok)" "snd (?start ?ok)"]
    by auto
  have b: "quizStorage (snd (?start ?full)) = \<lparr>item = None, quota_exceeded = True\<rparr>"
    using T[of 1754041200000 "''k3j9x2m1q''" 1754041200001 "''3110005_W2023''" "[1::nat, 2]"
        None ?full "fst (?start ?full)" "snd (?start ?full)"]
    by auto
  from a b show ?thesis by simp
qed

theorem C1_new_attempt_not_in_storage_counterexample:
  "newAttemptId 1754041200000 ''k3j9x2m1q'' = ''quiz-1754041200000-k3j9x2m1q''
   \<and> attempts (snd (startQuizAttempt 1754041200000 ''k3j9x2m1q'' 1754041200001
         ''3110005_W2023'' [1::nat, 2] None
         \<lparr>attempts = [], quizStorage = \<lparr>item = None, quota_exceeded = False\<rparr>\<rparr>))
     = [\<lparr>attemptId = ''quiz-1754041200000-k3j9x2m1q'', qa_paperId = ''3110005_W2023'',
         startTime = 1754041200001, endTime = 1754041200001, duration = 0,
         totalQuestions = 2, correctAnswers = 0, score = 0, questions = [],
         filters = None, isHidden = False\<rparr>]
   \<and> item (quizStorage (snd (startQuizAttempt 1754041200000 ''k3j9x2m1q'' 1754041200001
         ''3110005_W2023'' [1::nat, 2] None
         \<lparr>attempts = [], quizStorage = \<lparr>item = None, quota_exceeded = False\<rparr>\<rparr>)))
     = Some []"
proof -
  have id: "newAttemptId 1754041200000 ''k3j9x2m1q'' = ''quiz-1754041200000-k3j9x2m1q''"
    by (simp add: newAttemptId_def showInt_def showDigits.simps digitChar_def)
  show ?thesis
    unfolding id
    by (simp add: startQuizAttempt_def Let_def id saveAttempts_def isInvalidAttempt_def
        trySetItem_def setItem_def)
qed
section \<open>Quiz history: the purge of invalid attempts\<close>

lemma scoreOf_Nil: "scoreOf [] = 0"
  by (simp add: scoreOf_def totalMarksOf_def)

lemma endAttempt_Nil_invalid_iff:
  "isInvalidAttempt (endAttempt now [] a) \<longleftrightarrow> secondsBetween (startTime a) now = 0"
  by (simp add: isInvalidAttempt_def endAttempt_def scoreOf_Nil)

lemma endQuizAttempt_attempts:
  "attempts (endQuizAttempt now aid results st) =
     filter (\<lambda>a. \<not> isInvalidAttempt a)
       (map (\<lambda>a. if attemptId a = aid then endAttempt now results a else a) (attempts st))"
  by (simp add: endQuizAttempt_def Let_def)

lemma endQuizAttempt_item:
  "\<not> quota_exceeded (quizStorage st) \<Longrightarrow>
   item (quizStorage (endQuizAttempt now aid results st))
     = Some (attempts (endQuizAttempt now aid results st))"
  by (simp add: endQuizAttempt_def Let_def saveAttempts_item)

lemma loadQuizHistory_valid:
  assumes "item (quizStorage st) = Some xs" and "\<not> quota_exceeded (quizStorage st)"
  shows "attempts (loadQuizHistory st) = filter (\<lambda>a. \<not> isInvalidAttempt a) xs"
    and "item (quizStorage (loadQuizHistory st)) = Some (filter (\<lambda>a. \<not> isInvalidAttempt a) xs)"
proof -
  let ?v = "filter (\<lambda>a. \<not> isInvalidAttempt a) xs"
  show "attempts (loadQuizHistory st) = ?v"
    using assms by (simp add: loadQuizHistory_def Let_def setItem_def)
  show "item (quizStorage (loadQuizHistory st)) = Some ?v"
  proof (cases "length ?v = length xs")
    case True
    then have "?v = xs"
      by (metis filter_True length_filter_less less_irrefl)
    with True assms show ?thesis
      by (simp add: loadQuizHistory_def Let_def)
  next
    case False
    with assms show ?thesis
      by (simp add: loadQuizHistory_def Let_def setItem_def)
  qed
qed

text \<open>
  Claim C3, as the code has it. While the writes succeed, no invalid attempt (zero
  duration, empty result list, zero correct answers, zero score) is in the value that
  \<open>saveAttempts\<close> writes, nor in the attempts and the stored value after a load, nor in
  the attempts and the stored value after \<open>endQuizAttempt\<close>. Ending an attempt with the
  empty result list gives it zero correct answers, zero score and no results, but its
  duration is the rounded number of seconds since its start: the ended attempt is
  excluded exactly when that duration is \<open>0\<close>, and stays in the store otherwise.
\<close>

theorem C3_invalid_attempts_purged:
  assumes "\<not> quota_exceeded (quizStorage st)"
    and "item (quizStorage st) = Some stored"
    and "a \<in> set (attempts st)" and "attemptId a = aid"
  shows "(\<forall>x \<in> set (the (item (saveAttempts xs (quizStorage st)))). \<not> isInvalidAttempt x)
       \<and> (\<forall>x \<in> set (attempts (loadQuizHistory st)). \<not> isInvalidAttempt x)
       \<and> (\<forall>x \<in> set (the (item (quizStorage (loadQuizHistory st)))). \<not> isInvalidAttempt x)
       \<and> (\<forall>x \<in> set (attempts (endQuizAttempt now aid results st)). \<not> isInvalidAttempt x)
       \<and> item (quizStorage (endQuizAttempt now aid results st))
            = Some (attempts (endQuizAttempt now aid results st))
       \<and> (endAttempt now [] a \<in> set (attempts (endQuizAttempt now aid [] st))
            \<longleftrightarrow> secondsBetween (startTime a) now \<noteq> 0)"
proof -
  have save: "\<forall>x \<in> set (the (item (saveAttempts xs (quizStorage st)))). \<not> isInvalidAttempt x"
    using assms(1) by (simp add: saveAttempts_item)
  have load1: "\<forall>x \<in> set (attempts (loadQuizHistory st)). \<not> isInvalidAttempt x"
    using loadQuizHistory_valid(1)[OF assms(2,1)] by simp
  have load2: "\<forall>x \<in> set (the (item (quizStorage (loadQuizHistory st)))). \<not> isInvalidAttempt x"
    using loadQuizHistory_valid(2)[OF assms(2,1)] by simp
  have end1: "\<forall>x \<in> set (attempts (endQuizAttempt now aid results st)). \<not> isInvalidAttempt x"
    by (simp add: endQuizAttempt_attempts)
  have end2: "item (quizStorage (endQuizAttempt now aid results st))
            = Some (attempts (endQuizAttempt now aid results st))"
    using assms(1) by (rule endQuizAttempt_item)
  have end3: "endAttempt now [] a \<in> set (attempts (endQuizAttempt now aid [] st))
            \<longleftrightarrow> secondsBetween (startTime a) now \<noteq> 0"
  proof
    assume "endAttempt now [] a \<in> set (attempts (endQuizAttempt now aid [] st))"
    then have "\<not> isInvalidAttempt (endAttempt now [] a)"
      by (simp add: endQuizAttempt_attempts)
    then show "secondsBetween (startTime a) now \<noteq> 0"
      by (simp add: endAttempt_Nil_invalid_iff)
  next
    assume "secondsBetween (startTime a) now \<noteq> 0"
    then have valid: "\<not> isInvalidAttempt (endAttempt now [] a)"
      by (simp add: endAttempt_Nil_invalid_iff)
    have "endAttempt now [] a
        \<in> (\<lambda>a. if attemptId a = aid then endAttempt now [] a else a) ` set (attempts st)"
      using assms(3,4) by force
    with valid show "endAttempt now [] a \<in> set (attempts (endQuizAttempt now aid [] st))"
      by (simp add: endQuizAttempt_attempts)
  qed
  from save load1 load2 end1 end2 end3 show ?thesis by blast
qed

theorem C3_invalid_attempts_purged_witness:
  "secondsBetween 1754041200000 1754041200400 = 0
   \<and> attempts (endQuizAttempt 1754041200400 ''quiz-1754041200000-k3j9x2m1q'' []
        \<lparr>attempts = [\<lparr>attemptId = ''quiz-1754041200000-k3j9x2m1q'',
            qa_paperId = ''3110005_W2023'', startTime = 1754041200000,
            endTime = 1754041200000, duration = 0, totalQuestions = 2, correctAnswers = 0,
            score = 0, questions = [], filters = None, isHidden = False\<rparr>],
          quizStorage = \<lparr>item = Some [], quota_exceeded = False\<rparr>\<rparr>) = []
   \<and> item (quizStorage (endQuizAttempt 1754041200400 ''quiz-1754041200000-k3j9x2m1q'' []
        \<lparr>attempts = [\<lparr>attemptId = ''quiz-1754041200000-k3j9x2m1q'',
            qa_paperId = ''3110005_W2023'', startTime = 1754041200000,
            endTime = 1754041200000, duration = 0, totalQuestions = 2, correctAnswers = 0,
            score = 0, questions = [], filters = None, isHidden = False\<rparr>],
          quizStorage = \<lparr>item = Some [], quota_exceeded = False\<rparr>\<rparr>)) = Some []"
proof -
  let ?a = "\<lparr>attemptId = ''quiz-1754041200000-k3j9x2m1q'',
            qa_paperId = ''3110005_W2023'', startTime = 1754041200000,
            endTime = 1754041200000, duration = 0, totalQuestions = 2, correctAnswers = 0,
            score = 0, questions = [], filters = None, isHidden = False\<rparr>"
  let ?st = "\<lparr>attempts = [?a], quizStorage = \<lparr>item = Some [], quota_exceeded = False\<rparr>\<rparr>"
  let ?st' = "endQuizAttempt 1754041200400 ''quiz-1754041200000-k3j9x2m1q'' [] ?st"
  have d: "secondsBetween 1754041200000 1754041200400 = 0"
    by code_simp
  have inst: "(endAttempt 1754041200400 [] ?a \<in> set (attempts ?st')
               \<longleftrightarrow> secondsBetween (startTime ?a) 1754041200400 \<noteq> 0)
           \<and> item (quizStorage ?st') = Some (attempts ?st')"
    using C3_invalid_attempts_purged
      [of ?st "[]" ?a "''quiz-1754041200000-k3j9x2m1q''" "[]" 1754041200400 "[]"]
    by simp
  have "attempts ?st' = [endAttempt 1754041200400 [] ?a] \<or> attempts ?st' = []"
    by (simp add: endQuizAttempt_attempts)
  with inst d have "attempts ?st' = []"
    by auto
  with inst d show ?thesis by simp
qed

theorem C3_ended_empty_attempt_kept_counterexample:
  "attempts (endQuizAttempt 1754041260000 ''quiz-1754041200000-k3j9x2m1q'' []
        \<lparr>attempts = [\<lparr>attemptId = ''quiz-1754041200000-k3j9x2m1q'',
            qa_paperId = ''3110005_W2023'', startTime = 1754041200000,
            endTime = 1754041200000, duration = 0, totalQuestions = 2, correctAnswers = 0,
            score = 0, questions = [], filters = None, isHidden = False\<rparr>],
          quizStorage = \<lparr>item = Some [], quota_exceeded = False\<rparr>\<rparr>)
     = [\<lparr>attemptId = ''quiz-1754041200000-k3j9x2m1q'',
            qa_paperId = ''3110005_W2023'', startTime = 1754041200000,
            endTime = 1754041260000, duration = 60, totalQuestions = 2, correctAnswers = 0,
            score = 0, questions = [], filters = None, isHidden = False\<rparr>]
   \<and> item (quizStorage (endQuizAttempt 1754041260000 ''quiz-1754041200000-k3j9x2m1q'' []
        \<lparr>attempts = [\<lparr>attemptId = ''quiz-1754041200000-k3j9x2m1q'',
            qa_paperId = ''3110005_W2023'', startTime = 1754041200000,
            endTime = 1754041200000, duration = 0, totalQuestions = 2, correctAnswers = 0,
            score = 0, questions = [], filters = None, isHidden = False\<rparr>],
          quizStorage = \<lparr>item = Some [], quota_exceeded = False\<rparr>\<rparr>))
     = Some [\<lparr>attemptId = ''quiz-1754041200000-k3j9x2m1q'',
            qa_paperId = ''3110005_W2023'', startTime = 1754041200000,
            endTime = 1754041260000, duration = 60, totalQuestions = 2, correctAnswers = 0,
            score = 0, questions = [], filters = None, isHidden = False\<rparr>]"
proof -
  have d: "secondsBetween 1754041200000 1754041260000 = 60"
    by code_simp
  show ?thesis
    by (simp add: endQuizAttempt_def endAttempt_def Let_def d scoreOf_Nil saveAttempts_def
        isInvalidAttempt_def trySetItem_def setItem_def)
qed

section \<open>Progress store: records sit under their own key\<close>











section \<open>Notes store: the legacy migration\<close>

lemma strIncludes_append: "strIncludes ys pat \<Longrightarrow> strIncludes (xs @ ys) pat"
  by (induction xs) auto

lemma startsWith_append: "startsWith (pat @ rest) pat"
  by (induction pat) auto

lemma default_key_has_separator: "strIncludes (''default::'' @ key) ''::''"
proof -
  have "strIncludes (''::'' @ key) ''::''"
    using startsWith_append[of "''::''" key] by simp
  then have "strIncludes (''default'' @ (''::'' @ key)) ''::''"
    by (rule strIncludes_append)
  then show ?thesis by simp
qed

lemma objSet_keys_all:
  "list_all P (map fst kvs) \<Longrightarrow> P key \<Longrightarrow> list_all P (map fst (objSet key v kvs))"
  by (induction kvs) auto

lemma migrateEntry_keys:
  assumes "list_all (\<lambda>k. strIncludes k ''::'') (map fst acc)"
  shows "list_all (\<lambda>k. strIncludes k ''::'') (map fst (migrateEntry acc entry))"
proof (cases entry)
  case (Pair key v)
  show ?thesis
  proof (cases v)
    case (JStr t)
    show ?thesis
    proof (cases "strIncludes key ''::''")
      case True
      with Pair JStr assms show ?thesis
        by (simp add: migrateEntry_def objSet_keys_all)
    next
      case False
      have "list_all (\<lambda>k. strIncludes k ''::'') (map fst (objSet (''default::'' @ key) t acc))"
        using assms default_key_has_separator by (rule objSet_keys_all)
      with Pair JStr False show ?thesis
        by (simp add: migrateEntry_def)
    qed
  qed (use Pair assms in \<open>simp_all add: migrateEntry_def\<close>)
qed

lemma foldl_migrateEntry_keys:
  "list_all (\<lambda>k. strIncludes k ''::'') (map fst acc) \<Longrightarrow>
   list_all (\<lambda>k. strIncludes k ''::'') (map fst (foldl migrateEntry acc xs))"
proof (induction xs arbitrary: acc)
  case Nil
  then show ?case by simp
next
  case (Cons x xs)
  from Cons.prems have "list_all (\<lambda>k. strIncludes k ''::'') (map fst (migrateEntry acc x))"
    by (rule migrateEntry_keys)
  then show ?case
    using Cons.IH by simp
qed

lemma migrateNotes_keys: "list_all (\<lambda>k. strIncludes k ''::'') (map fst (migrateNotes xs))"
  unfolding migrateNotes_def by (rule foldl_migrateEntry_keys) simp

lemma loadNotes_never_writes: "notesStorage (loadNotes st) = notesStorage st"
proof (cases "item (notesStorage st)")
  case None
  then show ?thesis by (simp add: loadNotes_def)
next
  case (Some loaded)
  have "\<not> list_ex (\<lambda>key. \<not> strIncludes key ''::'') (map fst (migrateNotes loaded))"
    using migrateNotes_keys[of loaded] by (auto simp: list_ex_iff list_all_iff)
  with Some show ?thesis by (simp add: loadNotes_def Let_def)
qed

text \<open>
  Claim C2 at the stored object \<open>{"Q1_a": "foo"}\<close>. The load migrates the key in memory
  to \<open>default::Q1_a\<close>, but the guard of the write-back looks for a key without the
  separator among the keys of the migrated object, where there is none
  (\<open>loadNotes_never_writes\<close> holds for every stored object): local storage keeps the
  legacy key.
\<close>

theorem C2_migration_not_written_back:
  "notesMap (loadNotes \<lparr>notesMap = [],
       notesStorage = \<lparr>item = Some [(''Q1_a'', JStr ''foo'')], quota_exceeded = False\<rparr>\<rparr>)
     = [(''default::Q1_a'', ''foo'')]
   \<and> item (notesStorage (loadNotes \<lparr>notesMap = [],
       notesStorage = \<lparr>item = Some [(''Q1_a'', JStr ''foo'')], quota_exceeded = False\<rparr>\<rparr>))
     = Some [(''Q1_a'', JStr ''foo'')]"
  by (simp add: loadNotes_never_writes)
    (simp add: loadNotes_def migrateNotes_def migrateEntry_def Let_def)

section \<open>Quiz history: the score of an ended attempt\<close>

lemma foldl_marks: "foldl (\<lambda>sum r. sum + marks r) acc rs = acc + sum_list (map marks rs)"
  by (induction rs arbitrary: acc) simp_all

lemma totalMarksOf_sum: "totalMarksOf rs = sum_list (map marks rs)"
  by (simp add: totalMarksOf_def foldl_marks)

lemma earnedMarksOf_sum: "earnedMarksOf rs = sum_list (map marks (filter isCorrect rs))"
  by (simp add: earnedMarksOf_def foldl_marks)

lemma earned_le_total: "earnedMarksOf rs \<le> totalMarksOf rs"
  unfolding totalMarksOf_sum earnedMarksOf_sum by (induction rs) simp_all

lemma percentOf_5_10: "percentOf 5 10 = 50"
  by code_simp

lemma percentOf_23_40: "percentOf 23 40 = 57"
  by code_simp

lemma endQuizAttempt_ended:
  assumes "x \<in> set (attempts (endQuizAttempt now aid results st))" and "attemptId x = aid"
  shows "score x = scoreOf results"
proof -
  from assms(1) obtain a where a: "a \<in> set (attempts st)"
    and x: "x = (if attemptId a = aid then endAttempt now results a else a)"
    by (auto simp: endQuizAttempt_def Let_def)
  show ?thesis
  proof (cases "attemptId a = aid")
    case True
    with x show ?thesis by (simp add: endAttempt_def)
  next
    case False
    with x assms(2) show ?thesis by simp
  qed
qed

lemma endQuizAttempt_keeps_valid:
  assumes "a \<in> set (attempts st)" and "attemptId a = aid"
    and "\<not> isInvalidAttempt (endAttempt now results a)"
  shows "endAttempt now results a \<in> set (attempts (endQuizAttempt now aid results st))"
  using assms by (force simp: endQuizAttempt_def Let_def)

lemma totalMarksOf_pos_valid:
  "0 < totalMarksOf results \<Longrightarrow> \<not> isInvalidAttempt (endAttempt now results a)"
  by (auto simp: isInvalidAttempt_def endAttempt_def totalMarksOf_def)

lemma endQuizAttempt_stored:
  "\<not> quota_exceeded (quizStorage st) \<Longrightarrow>
   item (quizStorage (endQuizAttempt now aid results st))
     = Some (attempts (endQuizAttempt now aid results st))"
  by (simp add: endQuizAttempt_def Let_def saveAttempts_def trySetItem_def setItem_def)

text \<open>
  Claim C5, as the code has it. After \<open>endQuizAttempt\<close>, every attempt with the given id
  that the store holds carries the score computed from the results, in memory and, when
  the write succeeds, in storage; an attempt with that id held before is kept, ended,
  whenever it is valid then, as it is when the marks of the results do not sum to \<open>0\<close>.
  The score is \<open>0\<close> when the
  marks of the results sum to \<open>0\<close>, and otherwise \<open>Math.round((earnedMarks / totalMarks) * 100)\<close>
  in double precision, where \<open>earnedMarks\<close> sums the marks of the correct results and
  \<open>totalMarks\<close> the marks of all. That value is \<open>round(100 * earnedMarks / totalMarks)\<close>
  whenever the exact percentage is not halfway between two integers, and is that value
  or one less when it is. Two questions of 5 marks with exactly one correct score 50.
\<close>

theorem C5_score_is_double_rounded_percentage:
  assumes "totalMarksOf results < 2 ^ 44"
  shows "(\<forall>x \<in> set (attempts (endQuizAttempt now aid results st)).
            attemptId x = aid \<longrightarrow> score x = scoreOf results)
       \<and> (\<not> quota_exceeded (quizStorage st)
            \<longrightarrow> item (quizStorage (endQuizAttempt now aid results st))
                  = Some (attempts (endQuizAttempt now aid results st)))
       \<and> (attempt \<in> set (attempts st) \<and> attemptId attempt = aid
            \<and> \<not> isInvalidAttempt (endAttempt now results attempt)
            \<longrightarrow> endAttempt now results attempt
                  \<in> set (attempts (endQuizAttempt now aid results st)))
       \<and> (0 < totalMarksOf results \<longrightarrow> \<not> isInvalidAttempt (endAttempt now results attempt))
       \<and> score (endAttempt now results attempt) = scoreOf results
       \<and> earnedMarksOf results = sum_list (map marks (filter isCorrect results))
       \<and> totalMarksOf results = sum_list (map marks results)
       \<and> (totalMarksOf results = 0 \<longrightarrow> scoreOf results = 0)
       \<and> (0 < totalMarksOf results \<longrightarrow>
            (\<not> 2 * int (totalMarksOf results)
                 dvd 200 * int (earnedMarksOf results) + int (totalMarksOf results)
              \<longrightarrow> scoreOf results
                   = round (100 * of_nat (earnedMarksOf results)
                              / of_nat (totalMarksOf results) :: rat))
            \<and> round (100 * of_nat (earnedMarksOf results)
                        / of_nat (totalMarksOf results) :: rat) - 1 \<le> scoreOf results
            \<and> scoreOf results
                \<le> round (100 * of_nat (earnedMarksOf results)
                             / of_nat (totalMarksOf results) :: rat))
       \<and> (marks r1 = 5 \<and> marks r2 = 5 \<and> isCorrect r1 \<noteq> isCorrect r2
            \<longrightarrow> scoreOf [r1, r2] = 50)"
proof -
  let ?e = "int (earnedMarksOf results)"
  let ?t = "int (totalMarksOf results)"
  let ?st' = "endQuizAttempt now aid results st"
  have ended: "\<forall>x \<in> set (attempts ?st'). attemptId x = aid \<longrightarrow> score x = scoreOf results"
    using endQuizAttempt_ended by blast
  have persisted: "\<not> quota_exceeded (quizStorage st)
      \<longrightarrow> item (quizStorage ?st') = Some (attempts ?st')"
    using endQuizAttempt_stored by blast
  have kept: "attempt \<in> set (attempts st) \<and> attemptId attempt = aid
      \<and> \<not> isInvalidAttempt (endAttempt now results attempt)
      \<longrightarrow> endAttempt now results attempt \<in> set (attempts ?st')"
    using endQuizAttempt_keeps_valid by blast
  have valid: "0 < totalMarksOf results \<longrightarrow> \<not> isInvalidAttempt (endAttempt now results attempt)"
    using totalMarksOf_pos_valid by blast
  have stored: "score (endAttempt now results attempt) = scoreOf results"
    by (simp add: endAttempt_def)
  have zero: "totalMarksOf results = 0 \<longrightarrow> scoreOf results = 0"
    by (simp add: scoreOf_def)
  have pos: "(\<not> 2 * ?t dvd 200 * ?e + ?t \<longrightarrow>
               scoreOf results = round (100 * of_nat (earnedMarksOf results)
                                          / of_nat (totalMarksOf results) :: rat))
           \<and> round (100 * of_nat (earnedMarksOf results)
                       / of_nat (totalMarksOf results) :: rat) - 1 \<le> scoreOf results
           \<and> scoreOf results \<le> round (100 * of_nat (earnedMarksOf results)
                                        / of_nat (totalMarksOf results) :: rat)"
    if t: "0 < totalMarksOf results"
  proof -
    have "0 < ?t" "0 \<le> ?e" "?e \<le> ?t" using t earned_le_total[of results] by simp_all
    moreover have "?t < 2 ^ 44" using assms by (simp add: of_nat_less_numeral_power_cancel_iff)
    ultimately have
      "(\<not> 2 * ?t dvd 200 * ?e + ?t \<longrightarrow>
          percentOf ?e ?t = round (100 * of_int ?e / of_int ?t :: rat))
       \<and> round (100 * of_int ?e / of_int ?t :: rat) - 1 \<le> percentOf ?e ?t
       \<and> percentOf ?e ?t \<le> round (100 * of_int ?e / of_int ?t :: rat)"
      by (intro percentOf_exact)
    moreover have "scoreOf results = percentOf ?e ?t"
      using t by (simp add: scoreOf_def Let_def)
    ultimately show ?thesis by simp
  qed
  have example: "marks r1 = 5 \<and> marks r2 = 5 \<and> isCorrect r1 \<noteq> isCorrect r2
      \<longrightarrow> scoreOf [r1, r2] = 50"
    by (auto simp: scoreOf_def totalMarksOf_def earnedMarksOf_def percentOf_5_10)
  show ?thesis
    using ended persisted kept valid stored zero pos example earnedMarksOf_sum totalMarksOf_sum
    by blast
qed

theorem C5_score_witness:
  "endAttempt 1754041260000 [resultWith ''1_a'' 5 True, resultWith ''1_b'' 5 False]
       \<lparr>attemptId = ''quiz-1754041200000-k3j9x2m1q'', qa_paperId = ''3110005_W2023'',
        startTime = 1754041200000, endTime = 1754041200000, duration = 0,
        totalQuestions = 2, correctAnswers = 0, score = 0, questions = [],
        filters = None, isHidden = False\<rparr>
     \<in> set (attempts (endQuizAttempt 1754041260000 ''quiz-1754041200000-k3j9x2m1q''
         [resultWith ''1_a'' 5 True, resultWith ''1_b'' 5 False]
         \<lparr>attempts = [\<lparr>attemptId = ''quiz-1754041200000-k3j9x2m1q'',
            qa_paperId = ''3110005_W2023'', startTime = 1754041200000,
            endTime = 1754041200000, duration = 0, totalQuestions = 2, correctAnswers = 0,
            score = 0, questions = [], filters = None, isHidden = False\<rparr>],
          quizStorage = \<lparr>item = Some [], quota_exceeded = False\<rparr>\<rparr>))
   \<and> map score (attempts (endQuizAttempt 1754041260000 ''quiz-1754041200000-k3j9x2m1q''
         [resultWith ''1_a'' 5 True, resultWith ''1_b'' 5 False]
         \<lparr>attempts = [\<lparr>attemptId = ''quiz-1754041200000-k3j9x2m1q'',
            qa_paperId = ''3110005_W2023'', startTime = 1754041200000,
            endTime = 1754041200000, duration = 0, totalQuestions = 2, correctAnswers = 0,
            score = 0, questions = [], filters = None, isHidden = False\<rparr>],
          quizStorage = \<lparr>item = Some [], quota_exceeded = False\<rparr>\<rparr>)) = [50]
   \<and> map score (the (item (quizStorage (endQuizAttempt 1754041260000
         ''quiz-1754041200000-k3j9x2m1q''
         [resultWith ''1_a'' 5 True, resultWith ''1_b'' 5 False]
         \<lparr>attempts = [\<lparr>attemptId = ''quiz-1754041200000-k3j9x2m1q'',
            qa_paperId = ''3110005_W2023'', startTime = 1754041200000,
            endTime = 1754041200000, duration = 0, totalQuestions = 2, correctAnswers = 0,
            score = 0, questions = [], filters = None, isHidden = False\<rparr>],
          quizStorage = \<lparr>item = Some [], quota_exceeded = False\<rparr>\<rparr>)))) = [50]"
proof -
  let ?rs = "[resultWith ''1_a'' 5 True, resultWith ''1_b'' 5 False]"
  let ?a = "\<lparr>attemptId = ''quiz-1754041200000-k3j9x2m1q'', qa_paperId = ''3110005_W2023'',
        startTime = 1754041200000, endTime = 1754041200000, duration = 0,
        totalQuestions = 2, correctAnswers = 0, score = 0, questions = [],
        filters = None, isHidden = False\<rparr>"
  let ?st = "\<lparr>attempts = [?a], quizStorage = \<lparr>item = Some [], quota_exceeded = False\<rparr>\<rparr>"
  let ?st' = "endQuizAttempt 1754041260000 ''quiz-1754041200000-k3j9x2m1q'' ?rs ?st"
  have t: "totalMarksOf ?rs = 10"
    by (simp add: totalMarksOf_def resultWith_def)
  have bound: "totalMarksOf ?rs < 2 ^ 44"
    by (simp add: t)
  have h: "?a \<in> set (attempts ?st) \<and> attemptId ?a = ''quiz-1754041200000-k3j9x2m1q''
      \<and> 0 < totalMarksOf ?rs"
    by (simp add: t)
  have m: "marks (resultWith ''1_a'' 5 True) = 5 \<and> marks (resultWith ''1_b'' 5 False) = 5
      \<and> isCorrect (resultWith ''1_a'' 5 True) \<noteq> isCorrect (resultWith ''1_b'' 5 False)"
    by (simp add: resultWith_def)
  note T = C5_score_is_double_rounded_percentage
      [OF bound, of 1754041260000 "''quiz-1754041200000-k3j9x2m1q''" ?st ?a
        "resultWith ''1_a'' 5 True" "resultWith ''1_b'' 5 False"]
  have v: "\<not> isInvalidAttempt (endAttempt 1754041260000 ?rs ?a)"
    using T[THEN conjunct2, THEN conjunct2, THEN conjunct2, THEN conjunct1] h
    by (elim impE conjE) assumption+
  have mem: "endAttempt 1754041260000 ?rs ?a \<in> set (attempts ?st')"
    using T[THEN conjunct2, THEN conjunct2, THEN conjunct1] h v
    by (elim impE conjE) (intro conjI, assumption+)
  have sc: "scoreOf ?rs = 50"
    using T m by blast
  have "attempts ?st' = [endAttempt 1754041260000 ?rs ?a] \<or> attempts ?st' = []"
    by (simp add: endQuizAttempt_def Let_def)
  with mem have att: "attempts ?st' = [endAttempt 1754041260000 ?rs ?a]"
    by auto
  have "item (quizStorage ?st') = Some (attempts ?st')"
    using T by simp
  with att mem sc show ?thesis
    by (simp add: endAttempt_def)
qed

theorem C5_score_23_of_40_counterexample:
  "earnedMarksOf [resultWith ''1_a'' 3 True, resultWith ''1_b'' 4 False,
       resultWith ''1_c'' 7 True, resultWith ''2_a'' 3 True, resultWith ''2_b'' 4 False,
       resultWith ''2_c'' 7 True, resultWith ''3_a'' 3 True, resultWith ''3_b'' 4 False,
       resultWith ''3_c'' 5 False] = 23
   \<and> totalMarksOf [resultWith ''1_a'' 3 True, resultWith ''1_b'' 4 False,
       resultWith ''1_c'' 7 True, resultWith ''2_a'' 3 True, resultWith ''2_b'' 4 False,
       resultWith ''2_c'' 7 True, resultWith ''3_a'' 3 True, resultWith ''3_b'' 4 False,
       resultWith ''3_c'' 5 False] = 40
   \<and> map score (attempts (endQuizAttempt 1754041260000 ''quiz-1754041200000-k3j9x2m1q''
       [resultWith ''1_a'' 3 True, resultWith ''1_b'' 4 False,
        resultWith ''1_c'' 7 True, resultWith ''2_a'' 3 True, resultWith ''2_b'' 4 False,
        resultWith ''2_c'' 7 True, resultWith ''3_a'' 3 True, resultWith ''3_b'' 4 False,
        resultWith ''3_c'' 5 False]
       \<lparr>attempts = [\<lparr>attemptId = ''quiz-1754041200000-k3j9x2m1q'',
          qa_paperId = ''3110005_W2023'', startTime = 1754041200000,
          endTime = 1754041200000, duration = 0, totalQuestions = 9, correctAnswers = 0,
          score = 0, questions = [], filters = None, isHidden = False\<rparr>],
        quizStorage = \<lparr>item = Some [], quota_exceeded = False\<rparr>\<rparr>)) = [57]
   \<and> map score (the (item (quizStorage (endQuizAttempt 1754041260000
       ''quiz-1754041200000-k3j9x2m1q''
       [resultWith ''1_a'' 3 True, resultWith ''1_b'' 4 False,
        resultWith ''1_c'' 7 True, resultWith ''2_a'' 3 True, resultWith ''2_b'' 4 False,
        resultWith ''2_c'' 7 True, resultWith ''3_a'' 3 True, resultWith ''3_b'' 4 False,
        resultWith ''3_c'' 5 False]
       \<lparr>attempts = [\<lparr>attemptId = ''quiz-1754041200000-k3j9x2m1q'',
          qa_paperId = ''3110005_W2023'', startTime = 1754041200000,
          endTime = 1754041200000, duration = 0, totalQuestions = 9, correctAnswers = 0,
          score = 0, questions = [], filters = None, isHidden = False\<rparr>],
        quizStorage = \<lparr>item = Some [], quota_exceeded = False\<rparr>\<rparr>)))) = [57]
   \<and> round (100 * 23 / 40 :: rat) = 58"
proof -
  let ?rs = "[resultWith ''1_a'' 3 True, resultWith ''1_b'' 4 False,
       resultWith ''1_c'' 7 True, resultWith ''2_a'' 3 True, resultWith ''2_b'' 4 False,
       resultWith ''2_c'' 7 True, resultWith ''3_a'' 3 True, resultWith ''3_b'' 4 False,
       resultWith ''3_c'' 5 False]"
  have e: "earnedMarksOf ?rs = 23" and t: "totalMarksOf ?rs = 40"
    by (simp_all add: totalMarksOf_def earnedMarksOf_def resultWith_def)
  have sc: "scoreOf ?rs = 57"
    by (simp add: scoreOf_def e t percentOf_23_40)
  have r: "round (100 * 23 / 40 :: rat) = 58"
    by (simp add: round_def)
  have q: "?rs \<noteq> []" by simp
  show ?thesis
    unfolding e t r
    using sc q
    by (simp add: endQuizAttempt_def endAttempt_def Let_def saveAttempts_def
        isInvalidAttempt_def trySetItem_def setItem_def del: list.simps(3))
qed
section \<open>Progress statistics: exam readiness\<close>

lemma readinessTotals_foldl:
  "foldl (\<lambda>(totalScore, maxScore) q.
            let progress = getQuestionProgress pid st (questionIdOf q); m = q_marks q
            in (totalScore + questionScore now progress m, maxScore + m * 3))
         (a, b) qs
   = (a + sum_list (map (\<lambda>q. questionScore now
                            (getQuestionProgress pid st (questionIdOf q)) (q_marks q)) qs),
      b + sum_list (map (\<lambda>q. q_marks q * 3) qs))"
  by (induction qs arbitrary: a b) (simp_all add: Let_def)

lemma readinessTotals_sums:
  "readinessTotals now pid st qs
   = (sum_list (map (\<lambda>q. questionScore now
                        (getQuestionProgress pid st (questionIdOf q)) (q_marks q)) qs),
      sum_list (map (\<lambda>q. q_marks q * 3) qs))"
  unfolding readinessTotals_def readinessTotals_foldl by simp

lemma questionScore_le: "questionScore now progress m \<le> m * 3"
  by (simp add: questionScore_def)

lemma totalScore_le_maxScore:
  "fst (readinessTotals now pid st qs) \<le> snd (readinessTotals now pid st qs)"
  unfolding readinessTotals_sums fst_conv snd_conv
  by (induction qs) (simp_all add: questionScore_le add_mono)

lemma no_progress_totalScore:
  assumes "\<forall>q \<in> set qs. questionProgress st (createGlobalKey pid (questionIdOf q) None) = None"
  shows "fst (readinessTotals now pid st qs) = 0"
  using assms unfolding readinessTotals_sums fst_conv
  by (induction qs)
    (simp_all add: getQuestionProgress_def defaultQuestionProgress_def questionScore_def
      studiedRecently_def)

lemma full_progress_totalScore:
  assumes "\<forall>q \<in> set qs. completed (getQuestionProgress pid st (questionIdOf q))
             \<and> 4 \<le> confidenceLevel (getQuestionProgress pid st (questionIdOf q))
             \<and> studiedRecently now (getQuestionProgress pid st (questionIdOf q))"
  shows "fst (readinessTotals now pid st qs) = snd (readinessTotals now pid st qs)"
  using assms unfolding readinessTotals_sums fst_conv snd_conv
  by (induction qs) (simp_all add: questionScore_def)

lemma calculateExamReadiness_percent:
  assumes "qs \<noteq> []" and "0 < snd (readinessTotals now pid st qs)"
  shows "calculateExamReadiness now pid st qs
         = Some (percentOf (int (fst (readinessTotals now pid st qs)))
                           (int (snd (readinessTotals now pid st qs))))"
  using assms by (simp add: calculateExamReadiness_def split_beta)

lemma percentOf_69_120: "percentOf 69 120 = 57"
  by code_simp

text \<open>
  Claim C8, as the code has it. For a non-empty question list whose marks are not all
  zero, \<open>calculateExamReadiness\<close> returns \<open>Math.round((totalScore / maxScore) * 100)\<close> in
  double precision, where each question contributes its marks once for each of:
  completed, confidence at least 4, studied within the last 7 days, and \<open>maxScore\<close> is 3
  times the marks of all questions. That value is \<open>round(100 * totalScore / maxScore)\<close>
  whenever the exact percentage is not halfway between two integers, and is that value
  or one less when it is. It is 0 when no question has a progress record and 100 when
  every question is completed with confidence at least 4 and studied within 7 days. For
  the empty question list the result is 0.
\<close>

theorem C8_exam_readiness_is_double_rounded_percentage:
  assumes "0 < snd (readinessTotals now pid st qs)"
    and "snd (readinessTotals now pid st qs) < 2 ^ 44"
  shows "calculateExamReadiness now pid st [] = Some 0
       \<and> fst (readinessTotals now pid st qs)
           = sum_list (map (\<lambda>q. questionScore now
                 (getQuestionProgress pid st (questionIdOf q)) (q_marks q)) qs)
       \<and> snd (readinessTotals now pid st qs) = sum_list (map (\<lambda>q. q_marks q * 3) qs)
       \<and> calculateExamReadiness now pid st qs
           = Some (percentOf (int (fst (readinessTotals now pid st qs)))
                             (int (snd (readinessTotals now pid st qs))))
       \<and> (\<not> 2 * int (snd (readinessTotals now pid st qs))
              dvd 200 * int (fst (readinessTotals now pid st qs))
                  + int (snd (readinessTotals now pid st qs))
            \<longrightarrow> calculateExamReadiness now pid st qs
                 = Some (round (100 * of_nat (fst (readinessTotals now pid st qs))
                                  / of_nat (snd (readinessTotals now pid st qs)) :: rat)))
       \<and> (\<exists>v. calculateExamReadiness now pid st qs = Some v
              \<and> round (100 * of_nat (fst (readinessTotals now pid st qs))
                          / of_nat (snd (readinessTotals now pid st qs)) :: rat) - 1 \<le> v
              \<and> v \<le> round (100 * of_nat (fst (readinessTotals now pid st qs))
                              / of_nat (snd (readinessTotals now pid st qs)) :: rat))
       \<and> ((\<forall>q \<in> set qs. questionProgress st (createGlobalKey pid (questionIdOf q) None) = None)
            \<longrightarrow> calculateExamReadiness now pid st qs = Some 0)
       \<and> ((\<forall>q \<in> set qs. completed (getQuestionProgress pid st (questionIdOf q))
               \<and> 4 \<le> confidenceLevel (getQuestionProgress pid st (questionIdOf q))
               \<and> studiedRecently now (getQuestionProgress pid st (questionIdOf q)))
            \<longrightarrow> calculateExamReadiness now pid st qs = Some 100)"
proof -
  let ?ts = "fst (readinessTotals now pid st qs)"
  let ?ms = "snd (readinessTotals now pid st qs)"
  let ?R = "round (100 * of_nat ?ts / of_nat ?ms :: rat)"
  have ne: "qs \<noteq> []"
    using assms(1) by (auto simp: readinessTotals_sums)
  have empty: "calculateExamReadiness now pid st [] = Some 0"
    by (simp add: calculateExamReadiness_def)
  have sums: "?ts = sum_list (map (\<lambda>q. questionScore now
                 (getQuestionProgress pid st (questionIdOf q)) (q_marks q)) qs)"
    "?ms = sum_list (map (\<lambda>q. q_marks q * 3) qs)"
    by (simp_all add: readinessTotals_sums)
  have val: "calculateExamReadiness now pid st qs = Some (percentOf (int ?ts) (int ?ms))"
    using ne assms(1) by (rule calculateExamReadiness_percent)
  have "0 < int ?ms" "0 \<le> int ?ts" "int ?ts \<le> int ?ms"
    using assms(1) totalScore_le_maxScore[of now pid st qs] by simp_all
  moreover have "int ?ms < 2 ^ 44"
    using assms(2) by (simp add: of_nat_less_numeral_power_cancel_iff)
  ultimately have pc:
    "(\<not> 2 * int ?ms dvd 200 * int ?ts + int ?ms
        \<longrightarrow> percentOf (int ?ts) (int ?ms)
             = round (100 * of_int (int ?ts) / of_int (int ?ms) :: rat))
     \<and> round (100 * of_int (int ?ts) / of_int (int ?ms) :: rat) - 1
         \<le> percentOf (int ?ts) (int ?ms)
     \<and> percentOf (int ?ts) (int ?ms)
         \<le> round (100 * of_int (int ?ts) / of_int (int ?ms) :: rat)"
    by (intro percentOf_exact)
  then have exact: "\<not> 2 * int ?ms dvd 200 * int ?ts + int ?ms
      \<longrightarrow> calculateExamReadiness now pid st qs = Some ?R"
    and near: "\<exists>v. calculateExamReadiness now pid st qs = Some v \<and> ?R - 1 \<le> v \<and> v \<le> ?R"
    using val by simp_all
  have none: "(\<forall>q \<in> set qs. questionProgress st (createGlobalKey pid (questionIdOf q) None) = None)
      \<longrightarrow> calculateExamReadiness now pid st qs = Some 0"
  proof
    assume "\<forall>q \<in> set qs. questionProgress st (createGlobalKey pid (questionIdOf q) None) = None"
    then have "?ts = 0" by (rule no_progress_totalScore)
    with val assms(1) show "calculateExamReadiness now pid st qs = Some 0"
      by (simp add: percentOf_zero)
  qed
  have full: "(\<forall>q \<in> set qs. completed (getQuestionProgress pid st (questionIdOf q))
               \<and> 4 \<le> confidenceLevel (getQuestionProgress pid st (questionIdOf q))
               \<and> studiedRecently now (getQuestionProgress pid st (questionIdOf q)))
      \<longrightarrow> calculateExamReadiness now pid st qs = Some 100"
  proof
    assume "\<forall>q \<in> set qs. completed (getQuestionProgress pid st (questionIdOf q))
               \<and> 4 \<le> confidenceLevel (getQuestionProgress pid st (questionIdOf q))
               \<and> studiedRecently now (getQuestionProgress pid st (questionIdOf q))"
    then have "?ts = ?ms" by (rule full_progress_totalScore)
    with val assms(1) show "calculateExamReadiness now pid st qs = Some 100"
      by (simp add: percentOf_whole)
  qed
  from empty sums val exact near none full show ?thesis by blast
qed

theorem C8_exam_readiness_witness:
  "calculateExamReadiness 1754041200000 ''3110005_W2023''
     \<lparr>questionProgress = [''3110005_W2023::1_a'' \<mapsto>
          masteredAt 1754037600000 ''1_a'' ''3110005_W2023''],
      activeSession = None,
      progressStorage = \<lparr>item = None, quota_exceeded = False\<rparr>\<rparr>
     [questionWith ''1'' ''a'' 7] = Some 100
   \<and> calculateExamReadiness 1754041200000 ''3110005_W2023''
     \<lparr>questionProgress = Map.empty, activeSession = None,
      progressStorage = \<lparr>item = None, quota_exceeded = False\<rparr>\<rparr>
     [questionWith ''1'' ''a'' 7] = Some 0"
proof -
  let ?full = "\<lparr>questionProgress = [''3110005_W2023::1_a'' \<mapsto>
          masteredAt 1754037600000 ''1_a'' ''3110005_W2023''],
      activeSession = None,
      progressStorage = \<lparr>item = None, quota_exceeded = False\<rparr>\<rparr>"
  let ?none = "\<lparr>questionProgress = Map.empty, activeSession = None,
      progressStorage = \<lparr>item = None, quota_exceeded = False\<rparr>\<rparr>"
  let ?qs = "[questionWith ''1'' ''a'' 7]"
  have ms: "snd (readinessTotals 1754041200000 ''3110005_W2023'' st ?qs) = 21" for st
    by (simp add: readinessTotals_sums questionWith_def)
  have full: "\<forall>q \<in> set ?qs.
      completed (getQuestionProgress ''3110005_W2023'' ?full (questionIdOf q))
      \<and> 4 \<le> confidenceLevel (getQuestionProgress ''3110005_W2023'' ?full (questionIdOf q))
      \<and> studiedRecently 1754041200000
            (getQuestionProgress ''3110005_W2023'' ?full (questionIdOf q))"
    by (simp add: getQuestionProgress_def createGlobalKey_def questionIdOf_def questionWith_def
        masteredAt_def studiedRecently_def sevenDaysMs_def)
  have none: "\<forall>q \<in> set ?qs.
      questionProgress ?none (createGlobalKey ''3110005_W2023'' (questionIdOf q) None) = None"
    by simp
  have h1: "0 < snd (readinessTotals 1754041200000 ''3110005_W2023'' st ?qs)" for st
    by (simp add: ms)
  have h2: "snd (readinessTotals 1754041200000 ''3110005_W2023'' st ?qs) < 2 ^ 44" for st
    by (simp add: ms)
  have "calculateExamReadiness 1754041200000 ''3110005_W2023'' ?full ?qs = Some 100"
    using C8_exam_readiness_is_double_rounded_percentage [OF h1 h2, of ?full] full
    by blast
  moreover have "calculateExamReadiness 1754041200000 ''3110005_W2023'' ?none ?qs = Some 0"
    using C8_exam_readiness_is_double_rounded_percentage [OF h1 h2, of ?none] none
    by blast
  ultimately show ?thesis by simp
qed

theorem C8_readiness_69_of_120_counterexample:
  "calculateExamReadiness 1754041200000 ''3110005_W2023''
     \<lparr>questionProgress = [''3110005_W2023::1_a'' \<mapsto>
          masteredAt 1754037600000 ''1_a'' ''3110005_W2023''],
      activeSession = None,
      progressStorage = \<lparr>item = None, quota_exceeded = False\<rparr>\<rparr>
     [questionWith ''1'' ''a'' 23, questionWith ''1'' ''b'' 17] = Some 57
   \<and> readinessTotals 1754041200000 ''3110005_W2023''
     \<lparr>questionProgress = [''3110005_W2023::1_a'' \<mapsto>
          masteredAt 1754037600000 ''1_a'' ''3110005_W2023''],
      activeSession = None,
      progressStorage = \<lparr>item = None, quota_exceeded = False\<rparr>\<rparr>
     [questionWith ''1'' ''a'' 23, questionWith ''1'' ''b'' 17] = (69, 120)
   \<and> round (100 * 69 / 120 :: rat) = 58"
proof -
  let ?st = "\<lparr>questionProgress = [''3110005_W2023::1_a'' \<mapsto>
          masteredAt 1754037600000 ''1_a'' ''3110005_W2023''],
      activeSession = None,
      progressStorage = \<lparr>item = None, quota_exceeded = False\<rparr>\<rparr>"
  have totals: "readinessTotals 1754041200000 ''3110005_W2023'' ?st
      [questionWith ''1'' ''a'' 23, questionWith ''1'' ''b'' 17] = (69, 120)"
    by (simp add: readinessTotals_def questionWith_def questionIdOf_def
        getQuestionProgress_def createGlobalKey_def masteredAt_def defaultQuestionProgress_def
        questionScore_def studiedRecently_def sevenDaysMs_def Let_def)
  have r: "round (100 * 69 / 120 :: rat) = 58"
    by (simp add: round_def)
  have v: "calculateExamReadiness 1754041200000 ''3110005_W2023'' ?st
      [questionWith ''1'' ''a'' 23, questionWith ''1'' ''b'' 17] = Some 57"
    by (simp add: calculateExamReadiness_def totals percentOf_69_120)
  from v totals r show ?thesis by blast
qed

section \<open>Progress statistics: the streak\<close>

lemma oneDayMs_pos: "0 < oneDayMs"
  by (simp add: oneDayMs_def)

lemma nth_in_take: "i < j \<Longrightarrow> j \<le> length ds \<Longrightarrow> ds ! i \<in> set (take j ds)"
  by (metis in_set_conv_nth length_take min.absorb2 nth_take)

lemma set_uniqueDates: "set (uniqueDates ds) = set ds"
proof
  show "set (uniqueDates ds) \<subseteq> set ds"
    by (auto simp: uniqueDates_def in_set_enumerate_eq)
next
  show "set ds \<subseteq> set (uniqueDates ds)"
  proof
    fix d assume "d \<in> set ds"
    then have ex: "\<exists>i. i < length ds \<and> ds ! i = d" by (simp add: in_set_conv_nth)
    define i where "i = (LEAST i. i < length ds \<and> ds ! i = d)"
    have i: "i < length ds \<and> ds ! i = d"
      unfolding i_def using ex by (rule LeastI_ex)
    have least: "\<not> (j < length ds \<and> ds ! j = d)" if "j < i" for j
      using that unfolding i_def by (rule not_less_Least)
    have "d \<notin> set (take i ds)"
    proof
      assume "d \<in> set (take i ds)"
      then obtain j where "j < length (take i ds)" "take i ds ! j = d"
        by (auto simp: in_set_conv_nth)
      then have "j < i" "j < length ds" "ds ! j = d" using i by simp_all
      with least show False by blast
    qed
    with i have "(i, d) \<in> set (filter (\<lambda>(i, d). d \<notin> set (take i ds)) (enumerate 0 ds))"
      by (simp add: in_set_enumerate_eq)
    then show "d \<in> set (uniqueDates ds)"
      unfolding uniqueDates_def by force
  qed
qed

lemma distinct_uniqueDates: "distinct (uniqueDates ds)"
proof -
  let ?xs = "filter (\<lambda>(i, d). d \<notin> set (take i ds)) (enumerate 0 ds)"
  have "distinct ?xs" by (simp add: distinct_enumerate)
  moreover have "inj_on snd (set ?xs)"
  proof (rule inj_onI)
    fix p q assume p: "p \<in> set ?xs" and q: "q \<in> set ?xs" and eq: "snd p = snd q"
    obtain i d where pd: "p = (i, d)" by (cases p)
    obtain j e where qe: "q = (j, e)" by (cases q)
    from eq pd qe have e: "e = d" by simp
    from p pd have pi: "i < length ds" "ds ! i = d" "d \<notin> set (take i ds)"
      by (simp_all add: in_set_enumerate_eq)
    from q qe e have qj: "j < length ds" "ds ! j = d" "d \<notin> set (take j ds)"
      by (simp_all add: in_set_enumerate_eq)
    have "\<not> i < j" using nth_in_take[of i j ds] pi qj by auto
    moreover have "\<not> j < i" using nth_in_take[of j i ds] pi qj by auto
    ultimately have "i = j" by simp
    with pd qe e show "p = q" by simp
  qed
  ultimately show ?thesis
    unfolding uniqueDates_def by (simp add: distinct_map)
qed

lemma sortDescending_uniqueDates:
  "sortDescending (uniqueDates ds) = rev (sorted_list_of_set (set ds))"
proof -
  have "sorted_list_of_set (set (uniqueDates ds)) = sort (remdups (uniqueDates ds))"
    by (rule sorted_list_of_set_sort_remdups)
  then show ?thesis
    by (simp add: sortDescending_def set_uniqueDates distinct_remdups_id[OF distinct_uniqueDates])
qed

lemma decreasing_rev_sorted_list: "sorted_wrt (>) (rev (sorted_list_of_set (A :: int set)))"
  by (simp add: sorted_wrt_rev)

lemma decreasing_Max:
  "sorted_wrt (>) ((a :: int) # xs) \<Longrightarrow> Max (set (a # xs)) = a"
  by (intro Max_eqI) auto

text \<open>
  The loop on a strictly decreasing list of dates that all lie on the same grid of days
  (\<open>oneDayMs * d - offsetMs\<close>): from the count \<open>k\<close> it reaches \<open>n\<close>, the dates
  \<open>a, a - oneDayMs, \<dots>\<close> up to step \<open>n - k\<close> are in the list and the next one is not.
\<close>

lemma streakLoop_run:
  assumes "sorted_wrt (>) (a # xs)"
    and "\<forall>x \<in> set (a # xs). \<exists>d. x = oneDayMs * d - off"
  shows "k \<le> streakLoop (a # xs) k
       \<and> (\<forall>i \<le> streakLoop (a # xs) k - k. a - oneDayMs * int i \<in> set (a # xs))
       \<and> a - oneDayMs * (int (streakLoop (a # xs) k - k) + 1) \<notin> set (a # xs)"
  using assms
proof (induction xs arbitrary: a k)
  case Nil
  then show ?case using oneDayMs_pos by simp
next
  case (Cons b rest)
  have ba: "b < a" using Cons.prems(1) by simp
  have lower: "\<forall>x \<in> set (b # rest). x \<le> b" using Cons.prems(1) by auto
  show ?case
  proof (cases "a - b = oneDayMs")
    case True
    let ?n = "streakLoop (b # rest) (k + 1)"
    have loop: "streakLoop (a # b # rest) k = ?n" using True by simp
    have sorted: "sorted_wrt (>) (b # rest)" using Cons.prems(1) by simp
    have grid: "\<forall>x \<in> set (b # rest). \<exists>d. x = oneDayMs * d - off" using Cons.prems(2) by simp
    from Cons.IH[OF sorted grid, of "k + 1"]
    have ih: "k + 1 \<le> ?n"
      "\<forall>i \<le> ?n - (k + 1). b - oneDayMs * int i \<in> set (b # rest)"
      "b - oneDayMs * (int (?n - (k + 1)) + 1) \<notin> set (b # rest)"
      by blast+
    have b: "b = a - oneDayMs" using True by simp
    have run: "\<forall>i \<le> ?n - k. a - oneDayMs * int i \<in> set (a # b # rest)"
    proof (intro allI impI)
      fix i assume i: "i \<le> ?n - k"
      show "a - oneDayMs * int i \<in> set (a # b # rest)"
      proof (cases i)
        case 0
        then show ?thesis by simp
      next
        case (Suc j)
        with i ih(1) have "j \<le> ?n - (k + 1)" by simp
        with ih(2) have "b - oneDayMs * int j \<in> set (b # rest)" by blast
        moreover have "a - oneDayMs * int i = b - oneDayMs * int j"
          using Suc b by (simp add: algebra_simps)
        ultimately show ?thesis by simp
      qed
    qed
    have steps: "int (?n - k) = int (?n - (k + 1)) + 1"
      using ih(1) by linarith
    have "a - oneDayMs * (int (?n - k) + 1) = a - oneDayMs * (int (?n - (k + 1)) + 1 + 1)"
      by (simp only: steps)
    also have "\<dots> = a - oneDayMs - oneDayMs * (int (?n - (k + 1)) + 1)"
      by (simp add: distrib_left)
    finally have eq:
      "a - oneDayMs * (int (?n - k) + 1) = b - oneDayMs * (int (?n - (k + 1)) + 1)"
      by (simp only: b)
    have "0 < oneDayMs * (int (?n - k) + 1)"
      using oneDayMs_pos by (intro mult_pos_pos) simp_all
    then have "a - oneDayMs * (int (?n - k) + 1) \<noteq> a" by linarith
    with ih(3) eq have stop: "a - oneDayMs * (int (?n - k) + 1) \<notin> set (a # b # rest)"
      by simp
    from ih(1) run stop show ?thesis unfolding loop by simp
  next
    case False
    then have loop: "streakLoop (a # b # rest) k = k" by simp
    obtain da where da: "a = oneDayMs * da - off" using Cons.prems(2) by auto
    obtain db where db: "b = oneDayMs * db - off" using Cons.prems(2) by auto
    have "oneDayMs * db < oneDayMs * da" using ba da db by simp
    then have "db < da" using oneDayMs_pos by (simp add: mult_less_cancel_left_pos)
    moreover have "db \<noteq> da - 1" using False da db by (auto simp: algebra_simps)
    ultimately have "db \<le> da - 2" by simp
    then have "oneDayMs * db \<le> oneDayMs * (da - 2)"
      using oneDayMs_pos by (intro mult_left_mono) simp_all
    then have "b < a - oneDayMs" using da db oneDayMs_pos by (simp add: algebra_simps)
    with lower have "\<forall>x \<in> set (b # rest). x < a - oneDayMs" by fastforce
    then have "a - oneDayMs \<notin> set (b # rest)" by blast
    moreover have "a - oneDayMs \<noteq> a" using oneDayMs_pos by simp
    ultimately show ?thesis unfolding loop by simp
  qed
qed

lemma fixedOffsetMidnight_day:
  "fixedOffsetMidnight off t = oneDayMs * dayNumber off t - off"
proof -
  have "t + off = oneDayMs * ((t + off) div oneDayMs) + (t + off) mod oneDayMs"
    by simp
  then show ?thesis
    unfolding fixedOffsetMidnight_def dayNumber_def by linarith
qed

lemma set_map_filter_lastStudied:
  "set (List.map_filter lastStudied vs) = {t. \<exists>p \<in> set vs. lastStudied p = Some t}"
  by (force simp: List.map_filter_def)

lemma studyDates_fixed_offset:
  "studyDatesOf (fixedOffsetMidnight off) vs
   = rev (sorted_list_of_set ((\<lambda>d. oneDayMs * d - off) ` studyDays off vs))"
proof -
  have "fixedOffsetMidnight off ` set (List.map_filter lastStudied vs)
      = (\<lambda>d. oneDayMs * d - off) ` studyDays off vs"
    unfolding studyDays_def set_map_filter_lastStudied image_image
    by (simp add: fixedOffsetMidnight_day)
  then show ?thesis
    by (simp add: studyDatesOf_def sortDescending_uniqueDates)
qed

lemma finite_studyDays: "finite (studyDays off vs)"
proof -
  have "studyDays off vs = dayNumber off ` set (List.map_filter lastStudied vs)"
    by (simp add: studyDays_def set_map_filter_lastStudied)
  then show ?thesis by simp
qed

lemma day_grid_inj: "oneDayMs * d - off = oneDayMs * e - off \<longleftrightarrow> d = e"
  using oneDayMs_pos by simp

lemma studyDays_list:
  "studyDays off vs = dayNumber off ` set (List.map_filter lastStudied vs)"
  by (simp add: studyDays_def set_map_filter_lastStudied)

text \<open>
  Claim C7, as the code has it. In a time zone with a fixed offset from UTC, the streak
  counts calendar days that carry the last-studied date of some question. With no such
  date it is 0. Otherwise let \<open>Max S\<close> be the most recent of these days: the streak is 0
  unless that day is today or yesterday, and then it is the number \<open>n \<ge> 1\<close> for which
  the days \<open>Max S, Max S - 1, \<dots>, Max S - (n - 1)\<close> all carry a last-studied date and
  \<open>Max S - n\<close> carries none. Last-studied dates on exactly today, yesterday and the day
  before give 3.
\<close>

theorem C7_streak_in_fixed_offset_zone:
  "(studyDays off vs = {} \<longrightarrow> calculateStreak (fixedOffsetMidnight off) now vs = 0)
   \<and> (studyDays off vs \<noteq> {}
        \<and> Max (studyDays off vs) \<noteq> dayNumber off now
        \<and> Max (studyDays off vs) \<noteq> dayNumber off now - 1
       \<longrightarrow> calculateStreak (fixedOffsetMidnight off) now vs = 0)
   \<and> (studyDays off vs \<noteq> {}
        \<and> (Max (studyDays off vs) = dayNumber off now
            \<or> Max (studyDays off vs) = dayNumber off now - 1)
       \<longrightarrow> 1 \<le> calculateStreak (fixedOffsetMidnight off) now vs
         \<and> (\<forall>i < calculateStreak (fixedOffsetMidnight off) now vs.
               Max (studyDays off vs) - int i \<in> studyDays off vs)
         \<and> Max (studyDays off vs) - int (calculateStreak (fixedOffsetMidnight off) now vs)
               \<notin> studyDays off vs)
   \<and> (studyDays off vs = {dayNumber off now, dayNumber off now - 1, dayNumber off now - 2}
       \<longrightarrow> calculateStreak (fixedOffsetMidnight off) now vs = 3)"
proof -
  let ?S = "studyDays off vs"
  let ?f = "\<lambda>d. oneDayMs * d - off"
  let ?dates = "studyDatesOf (fixedOffsetMidnight off) vs"
  let ?n = "calculateStreak (fixedOffsetMidnight off) now vs"
  let ?today = "dayNumber off now"
  have fin: "finite ?S" by (rule finite_studyDays)
  have dates: "?dates = rev (sorted_list_of_set (?f ` ?S))"
    by (rule studyDates_fixed_offset)
  have set_dates: "set ?dates = ?f ` ?S"
    using fin by (simp add: dates)
  have dec: "sorted_wrt (>) ?dates"
    unfolding dates by (rule decreasing_rev_sorted_list)
  have empty: "?S = {} \<longrightarrow> ?n = 0"
    by (simp add: calculateStreak_def dates)
  have nonempty: "(Max ?S \<noteq> ?today \<and> Max ?S \<noteq> ?today - 1 \<longrightarrow> ?n = 0)
      \<and> (Max ?S = ?today \<or> Max ?S = ?today - 1
          \<longrightarrow> 1 \<le> ?n \<and> (\<forall>i < ?n. Max ?S - int i \<in> ?S) \<and> Max ?S - int ?n \<notin> ?S)"
    if ne: "?S \<noteq> {}"
  proof -
    from ne set_dates obtain first others where cons: "?dates = first # others"
      by (cases ?dates) auto
    have "Max (set ?dates) = first"
      using dec unfolding cons by (rule decreasing_Max)
    moreover have "Max (?f ` ?S) = ?f (Max ?S)"
      using fin ne oneDayMs_pos by (intro mono_Max_commute[symmetric] monoI) simp_all
    ultimately have first: "first = ?f (Max ?S)"
      by (simp add: set_dates)
    have today: "fixedOffsetMidnight off now = ?f ?today"
      by (rule fixedOffsetMidnight_day)
    have yesterday: "fixedOffsetMidnight off now - oneDayMs = ?f (?today - 1)"
      by (simp add: today algebra_simps)
    have is_today: "first = fixedOffsetMidnight off now \<longleftrightarrow> Max ?S = ?today"
      unfolding first today by (rule day_grid_inj)
    have is_yesterday:
      "first = fixedOffsetMidnight off now - oneDayMs \<longleftrightarrow> Max ?S = ?today - 1"
      unfolding first yesterday by (rule day_grid_inj)
    have "?n = (if first \<noteq> fixedOffsetMidnight off now
                   \<and> first \<noteq> fixedOffsetMidnight off now - oneDayMs then 0
                else streakLoop ?dates 1)"
      by (simp add: calculateStreak_def Let_def cons)
    then have n: "?n = (if Max ?S \<noteq> ?today \<and> Max ?S \<noteq> ?today - 1 then 0
                   else streakLoop ?dates 1)"
      unfolding is_today is_yesterday .
    have grid: "\<forall>x \<in> set (first # others). \<exists>d. x = oneDayMs * d - off"
      using set_dates unfolding cons by auto
    let ?m = "streakLoop ?dates 1"
    from streakLoop_run[OF dec[unfolded cons] grid, of 1]
    have run: "1 \<le> ?m"
      "\<forall>i \<le> ?m - 1. first - oneDayMs * int i \<in> set ?dates"
      "first - oneDayMs * (int (?m - 1) + 1) \<notin> set ?dates"
      unfolding cons by blast+
    have step: "first - oneDayMs * j = ?f (Max ?S - j)" for j
      by (simp add: first algebra_simps)
    have mem: "?f d \<in> ?f ` ?S \<longleftrightarrow> d \<in> ?S" for d
      using oneDayMs_pos by (auto simp: image_iff)
    have days: "\<forall>i < ?m. Max ?S - int i \<in> ?S"
    proof (intro allI impI)
      fix i assume "i < ?m"
      then have "i \<le> ?m - 1" by simp
      with run(2) have "first - oneDayMs * int i \<in> set ?dates" by blast
      then show "Max ?S - int i \<in> ?S"
        unfolding step set_dates mem .
    qed
    have "int (?m - 1) + 1 = int ?m" using run(1) by simp
    with run(3) have "first - oneDayMs * int ?m \<notin> set ?dates" by simp
    then have stop: "Max ?S - int ?m \<notin> ?S"
      unfolding step set_dates mem .
    show ?thesis
    proof (cases "Max ?S = ?today \<or> Max ?S = ?today - 1")
      case True
      then have nm: "?n = ?m" using n by auto
      from True run(1) days stop show ?thesis unfolding nm by blast
    next
      case False
      then have "?n = 0" using n by auto
      with False show ?thesis by blast
    qed
  qed
  have three: "?n = 3" if S: "?S = {?today, ?today - 1, ?today - 2}"
  proof -
    have ne: "?S \<noteq> {}" using S by simp
    have mx: "Max ?S = ?today" unfolding S by (intro Max_eqI) auto
    from nonempty[OF ne] mx
    have n: "1 \<le> ?n" "\<forall>i < ?n. ?today - int i \<in> ?S" "?today - int ?n \<notin> ?S"
      by simp_all
    from n(3) have "?n \<noteq> 0" "?n \<noteq> 1" "?n \<noteq> 2"
      unfolding S by auto
    moreover have "\<not> 3 < ?n"
    proof
      assume "3 < ?n"
      with n(2) have "?today - int 3 \<in> ?S" by blast
      then show False unfolding S by simp
    qed
    ultimately show ?thesis by simp
  qed
  from empty nonempty three show ?thesis by blast
qed

theorem C7_streak_witness:
  "studyDays 19800000
     [masteredAt 1754037600000 ''1_a'' ''3110005_W2023'',
      masteredAt 1753951200000 ''1_b'' ''3110005_W2023'',
      masteredAt 1753864800000 ''1_c'' ''3110005_W2023'']
     = {dayNumber 19800000 1754041200000, dayNumber 19800000 1754041200000 - 1,
        dayNumber 19800000 1754041200000 - 2}
   \<and> calculateStreak (fixedOffsetMidnight 19800000) 1754041200000
     [masteredAt 1754037600000 ''1_a'' ''3110005_W2023'',
      masteredAt 1753951200000 ''1_b'' ''3110005_W2023'',
      masteredAt 1753864800000 ''1_c'' ''3110005_W2023''] = 3"
proof -
  let ?vs = "[masteredAt 1754037600000 ''1_a'' ''3110005_W2023'',
      masteredAt 1753951200000 ''1_b'' ''3110005_W2023'',
      masteredAt 1753864800000 ''1_c'' ''3110005_W2023'']"
  have days: "studyDays 19800000 ?vs
     = {dayNumber 19800000 1754041200000, dayNumber 19800000 1754041200000 - 1,
        dayNumber 19800000 1754041200000 - 2}"
    by (simp add: studyDays_list List.map_filter_def masteredAt_def dayNumber_def oneDayMs_def)
  with C7_streak_in_fixed_offset_zone[of 19800000 ?vs 1754041200000]
  have "calculateStreak (fixedOffsetMidnight 19800000) 1754041200000 ?vs = 3"
    by blast
  with days show ?thesis by blast
qed

text \<open>
  Two inputs on which the streak is not the number of consecutive days with study
  events. (1) Three study sessions of the same question on three consecutive days, in a
  zone at UTC+5:30: each \<open>startStudySession\<close> overwrites \<open>lastStudied\<close>, the store holds
  one record, and the streak is 1. (2) Three questions last studied on 9, 10 and 11
  March 2024 in the zone America/New_York, read on 11 March: the local midnights of
  10 and 11 March are 23 hours apart, the loop compares the difference with 24 hours,
  and the streak is 1.
\<close>

theorem C7_streak_not_three_counterexample:
  "questionProgress
     (startStudySession 1754037600000 ''3110005_W2023'' ''1_a'' Study
       (startStudySession 1753951200000 ''3110005_W2023'' ''1_a'' Study
         (startStudySession 1753864800000 ''3110005_W2023'' ''1_a'' Study
           \<lparr>questionProgress = Map.empty, activeSession = None,
            progressStorage = \<lparr>item = None, quota_exceeded = False\<rparr>\<rparr>)))
     = [''3110005_W2023::1_a'' \<mapsto>
          (defaultQuestionProgress ''1_a'' ''3110005_W2023'')
            \<lparr>reviewCount := 3, lastStudied := Some 1754037600000\<rparr>]
   \<and> calculateStreak (fixedOffsetMidnight 19800000) 1754041200000
       [(defaultQuestionProgress ''1_a'' ''3110005_W2023'')
            \<lparr>reviewCount := 3, lastStudied := Some 1754037600000\<rparr>] = 1
   \<and> studyDatesOf easternMidnight
       [masteredAt 1710162000000 ''1_a'' ''3110005_W2023'',
        masteredAt 1710100800000 ''1_b'' ''3110005_W2023'',
        masteredAt 1710014400000 ''1_c'' ''3110005_W2023'']
       = [1710129600000, 1710046800000, 1709960400000]
   \<and> calculateStreak easternMidnight 1710165600000
       [masteredAt 1710162000000 ''1_a'' ''3110005_W2023'',
        masteredAt 1710100800000 ''1_b'' ''3110005_W2023'',
        masteredAt 1710014400000 ''1_c'' ''3110005_W2023''] = 1"
proof -
  have sessions: "questionProgress
     (startStudySession 1754037600000 ''3110005_W2023'' ''1_a'' Study
       (startStudySession 1753951200000 ''3110005_W2023'' ''1_a'' Study
         (startStudySession 1753864800000 ''3110005_W2023'' ''1_a'' Study
           \<lparr>questionProgress = Map.empty, activeSession = None,
            progressStorage = \<lparr>item = None, quota_exceeded = False\<rparr>\<rparr>)))
     = [''3110005_W2023::1_a'' \<mapsto>
          (defaultQuestionProgress ''1_a'' ''3110005_W2023'')
            \<lparr>reviewCount := 3, lastStudied := Some 1754037600000\<rparr>]"
    by (simp add: startStudySession_def Let_def createGlobalKey_def defaultQuestionProgress_def)
  have one: "calculateStreak (fixedOffsetMidnight 19800000) 1754041200000
       [(defaultQuestionProgress ''1_a'' ''3110005_W2023'')
            \<lparr>reviewCount := 3, lastStudied := Some 1754037600000\<rparr>] = 1"
    by code_simp
  have dates: "studyDatesOf easternMidnight
       [masteredAt 1710162000000 ''1_a'' ''3110005_W2023'',
        masteredAt 1710100800000 ''1_b'' ''3110005_W2023'',
        masteredAt 1710014400000 ''1_c'' ''3110005_W2023'']
       = [1710129600000, 1710046800000, 1709960400000]"
    by code_simp
  have eastern: "calculateStreak easternMidnight 1710165600000
       [masteredAt 1710162000000 ''1_a'' ''3110005_W2023'',
        masteredAt 1710100800000 ''1_b'' ''3110005_W2023'',
        masteredAt 1710014400000 ''1_c'' ''3110005_W2023''] = 1"
    by code_simp
  from sessions one dates eastern show ?thesis by blast
qed


section \<open>Paper loader: which error for which response\<close>

lemma cleanData_cases:
  "(\<exists>m. cleanData data = Inl (OtherError m)) \<or> (\<exists>paper. cleanData data = Inr paper)"
  by (cases "cleanData data") (auto simp: cleanData_def split: json.splits option.splits if_splits)

lemma cleanData_not_categorised:
  "cleanData data \<noteq> Inl (NotFound m)"
  "cleanData data \<noteq> Inl (ServerError m)"
  "cleanData data \<noteq> Inl (InvalidFormat m)"
  using cleanData_cases[of data] by auto

lemma cleanData_no_questions:
  "map_of kvs ''questions'' = None \<Longrightarrow> cleanData (JObj kvs) = Inr (JObj kvs)"
  by (simp add: cleanData_def)

lemma cleanData_questions_array:
  "map_of kvs ''questions'' = Some (JArr xs) \<Longrightarrow>
   cleanData (JObj kvs) = Inr (JObj (objSet ''questions'' (JArr (map cleanQuestion xs)) kvs))"
  by (simp add: cleanData_def truthy_def)

lemma cleanData_not_object:
  "(\<forall>kvs. data \<noteq> JObj kvs) \<Longrightarrow> cleanData data = Inr data"
  by (cases data) (simp_all add: cleanData_def)

text \<open>
  Claim C4 against the code. For a response, the loader fails with \<open>NotFound\<close> exactly
  when the status is 404, with \<open>ServerError\<close> exactly for every other status outside
  200-299, and with \<open>InvalidFormat\<close> when the status is in 200-299 and the trimmed body
  begins with \<open><\<close>, or the body does not parse as JSON, or it parses to \<open>null\<close>; and in
  no other case. So the test that the claim names last is missing: a parsed value that is
  not an object containing \<open>metadata\<close> and \<open>questions\<close> is never rejected as
  \<open>InvalidFormat\<close>. It is passed on unchanged when it is not an object or has no
  \<open>questions\<close>; when \<open>questions\<close> is an array, it is passed on with each entry cleaned.
  The response 200 with the body \<open>{}\<close> is loaded as a paper.
\<close>

theorem C4_loader_errors_by_response:
  "((\<exists>m. loadQuestionPaper fname (Response status statusText body) parsed = Inl (NotFound m))
      \<longleftrightarrow> status = 404)
   \<and> ((\<exists>m. loadQuestionPaper fname (Response status statusText body) parsed
             = Inl (ServerError m))
      \<longleftrightarrow> \<not> responseOk status \<and> status \<noteq> 404)
   \<and> ((\<exists>m. loadQuestionPaper fname (Response status statusText body) parsed
             = Inl (InvalidFormat m))
      \<longleftrightarrow> responseOk status
          \<and> (startsWith (trim body) (ascii ''<'') \<or> (\<exists>msg. parsed = Inl msg)
              \<or> parsed = Inr JNull))
   \<and> (responseOk status \<and> \<not> startsWith (trim body) (ascii ''<'') \<and> data \<noteq> JNull
        \<longrightarrow> loadQuestionPaper fname (Response status statusText body) (Inr data)
            = cleanData data)
   \<and> (responseOk status \<and> \<not> startsWith (trim body) (ascii ''<'') \<and> data \<noteq> JNull
        \<and> \<not> hasMetadataAndQuestions data
        \<longrightarrow> (\<forall>m. loadQuestionPaper fname (Response status statusText body) (Inr data)
                  \<noteq> Inl (InvalidFormat m)))
   \<and> ((\<forall>kvs. data \<noteq> JObj kvs) \<longrightarrow> cleanData data = Inr data)
   \<and> (map_of kvs ''questions'' = None \<longrightarrow> cleanData (JObj kvs) = Inr (JObj kvs))
   \<and> (map_of kvs ''questions'' = Some (JArr xs)
        \<longrightarrow> cleanData (JObj kvs)
            = Inr (JObj (objSet ''questions'' (JArr (map cleanQuestion xs)) kvs)))"
proof -
  let ?r = "loadQuestionPaper fname (Response status statusText body) parsed"
  have nf: "(\<exists>m. ?r = Inl (NotFound m)) \<longleftrightarrow> status = 404"
    by (auto simp: loadQuestionPaper_def responseOk_def cleanData_not_categorised
        split: sum.splits)
  have se: "(\<exists>m. ?r = Inl (ServerError m)) \<longleftrightarrow> \<not> responseOk status \<and> status \<noteq> 404"
    by (auto simp: loadQuestionPaper_def cleanData_not_categorised split: sum.splits)
  have inv: "(\<exists>m. ?r = Inl (InvalidFormat m))
      \<longleftrightarrow> responseOk status
          \<and> (startsWith (trim body) (ascii ''<'') \<or> (\<exists>msg. parsed = Inl msg)
              \<or> parsed = Inr JNull)"
    by (cases parsed) (auto simp: loadQuestionPaper_def cleanData_not_categorised)
  have ok: "responseOk status \<and> \<not> startsWith (trim body) (ascii ''<'') \<and> data \<noteq> JNull
        \<longrightarrow> loadQuestionPaper fname (Response status statusText body) (Inr data)
            = cleanData data"
    by (simp add: loadQuestionPaper_def)
  have shape: "responseOk status \<and> \<not> startsWith (trim body) (ascii ''<'') \<and> data \<noteq> JNull
        \<and> \<not> hasMetadataAndQuestions data
        \<longrightarrow> (\<forall>m. loadQuestionPaper fname (Response status statusText body) (Inr data)
                  \<noteq> Inl (InvalidFormat m))"
    using ok cleanData_not_categorised(3)[of data] by simp
  from nf se inv ok shape cleanData_not_object[of data] cleanData_no_questions[of kvs]
    cleanData_questions_array[of kvs xs]
  show ?thesis by blast
qed

theorem C4_loader_witness:
  "(\<exists>m. loadQuestionPaper ''3110005_W2023.json''
          (Response 404 ''Not Found'' (ascii ''<!DOCTYPE html>''))
          (Inl ''Unexpected token <'') = Inl (NotFound m))
   \<and> (\<exists>m. loadQuestionPaper ''3110005_W2023.json''
          (Response 200 ''OK'' (ascii ''<!DOCTYPE html>''))
          (Inl ''Unexpected token <'') = Inl (InvalidFormat m))
   \<and> loadQuestionPaper ''3110005_W2023.json'' (Response 200 ''OK'' (ascii ''{}''))
          (Inr (JObj [])) = Inr (JObj [])
   \<and> \<not> hasMetadataAndQuestions (JObj [])
   \<and> loadQuestionPaper ''3110005_W2023.json'' (Response 200 ''OK'' (ascii ''[1]''))
          (Inr (JArr [JNum 1])) = Inr (JArr [JNum 1])
   \<and> \<not> hasMetadataAndQuestions (JArr [JNum 1])"
proof -
  have html: "startsWith (trim (ascii ''<!DOCTYPE html>'')) (ascii ''<'')"
    by code_simp
  have nohtml: "\<not> startsWith (trim (ascii ''{}'')) (ascii ''<'')"
    "\<not> startsWith (trim (ascii ''[1]'')) (ascii ''<'')"
    by code_simp+
  have ok: "responseOk 200" "\<not> responseOk 404"
    by (simp_all add: responseOk_def)
  have shape: "\<not> hasMetadataAndQuestions (JObj [])" "\<not> hasMetadataAndQuestions (JArr [JNum 1])"
    by (simp_all add: hasMetadataAndQuestions_def)
  note T = C4_loader_errors_by_response
  have a: "\<exists>m. loadQuestionPaper ''3110005_W2023.json''
          (Response 404 ''Not Found'' (ascii ''<!DOCTYPE html>'')) (Inl ''Unexpected token <'')
        = Inl (NotFound m)"
    using T[of "''3110005_W2023.json''" 404 "''Not Found''" "ascii ''<!DOCTYPE html>''"
        "Inl ''Unexpected token <''"]
    by blast
  have b: "\<exists>m. loadQuestionPaper ''3110005_W2023.json''
          (Response 200 ''OK'' (ascii ''<!DOCTYPE html>'')) (Inl ''Unexpected token <'')
        = Inl (InvalidFormat m)"
    using T[of "''3110005_W2023.json''" 200 "''OK''" "ascii ''<!DOCTYPE html>''"
        "Inl ''Unexpected token <''"] html ok
    by blast
  have c: "loadQuestionPaper ''3110005_W2023.json'' (Response 200 ''OK'' (ascii ''{}''))
          (Inr (JObj [])) = Inr (JObj [])"
    using T[of "''3110005_W2023.json''" 200 "''OK''" "ascii ''{}''" _ "JObj []" "[]" "[]"]
      nohtml ok
    by simp
  have d: "loadQuestionPaper ''3110005_W2023.json'' (Response 200 ''OK'' (ascii ''[1]''))
          (Inr (JArr [JNum 1])) = Inr (JArr [JNum 1])"
    using T[of "''3110005_W2023.json''" 200 "''OK''" "ascii ''[1]''" _ "JArr [JNum 1]" "[]" "[]"]
      nohtml ok
    by simp
  from a b c d shape show ?thesis by blast
qed
section \<open>Text cleanup: where the transforms change nothing\<close>

lemma replaceAll_trigger_free:
  assumes "\<And>p t. m p t \<noteq> None \<Longrightarrow> t \<noteq> [] \<and> hd t \<in> T"
    and "set s \<inter> T = {}"
  shows "replaceAll m prev s = s"
  using assms(2)
proof (induction s arbitrary: prev)
  case Nil
  show ?case by simp
next
  case (Cons c cs)
  have "m prev (c # cs) = None"
    using assms(1)[of prev "c # cs"] Cons.prems by auto
  with Cons show ?case by simp
qed

lemma replaceAll_subset:
  assumes "\<And>p t r n. m p t = Some (r, n) \<Longrightarrow> set r \<subseteq> set t"
  shows "set (replaceAll m prev s) \<subseteq> set s"
proof (induction s arbitrary: prev rule: length_induct)
  case (1 s)
  show ?case
  proof (cases s)
    case Nil
    then show ?thesis by simp
  next
    case (Cons c cs)
    show ?thesis
    proof (cases "m prev (c # cs)")
      case None
      have "set (replaceAll m (Some c) cs) \<subseteq> set cs"
        using 1 Cons by simp
      with None Cons show ?thesis by auto
    next
      case (Some a)
      obtain r n where a: "a = (r, n)" by (cases a)
      have "set r \<subseteq> set (c # cs)" using assms[of prev "c # cs" r n] Some a by simp
      moreover have "set (replaceAll m (Some ((c # cs) ! (n - 1))) (drop (n - 1) cs))
          \<subseteq> set (drop (n - 1) cs)"
        using 1 Cons by simp
      moreover have "set (drop (n - 1) cs) \<subseteq> set cs" by (rule set_drop_subset)
      ultimately show ?thesis using Some a Cons by auto
    qed
  qed
qed

lemma startsWith_hd: "startsWith s lit \<Longrightarrow> lit \<noteq> [] \<Longrightarrow> s \<noteq> [] \<and> hd s = hd lit"
  by (cases s; cases lit) auto

lemma literal_trigger:
  "lit \<noteq> [] \<Longrightarrow> literal lit rep p t \<noteq> None \<Longrightarrow> t \<noteq> [] \<and> hd t \<in> {hd lit}"
  using startsWith_hd[of t lit] by (auto simp: literal_def split: if_splits)

lemma delimited_trigger:
  "opn \<noteq> [] \<Longrightarrow> delimited opn cls closing rep p t \<noteq> None
   \<Longrightarrow> t \<noteq> [] \<and> hd t \<in> {hd opn}"
  using startsWith_hd[of t opn] by (auto simp: delimited_def split: if_splits)

lemma latexCommand_trigger: "latexCommand p t \<noteq> None \<Longrightarrow> t \<noteq> [] \<and> hd t \<in> {backslash}"
  by (cases t) (auto simp: latexCommand_def split: if_splits)

lemma replaceAll_no_match: "\<not> matchesAnywhere m prev s \<Longrightarrow> replaceAll m prev s = s"
proof (induction s arbitrary: prev)
  case Nil
  show ?case by simp
next
  case (Cons c cs)
  then have "m prev (c # cs) = None" "\<not> matchesAnywhere m (Some c) cs"
    by (cases "m prev (c # cs)"; simp)+
  with Cons.IH show ?case by simp
qed

lemma trigger_free_no_match:
  assumes "\<And>p t. m p t \<noteq> None \<Longrightarrow> t \<noteq> [] \<and> hd t \<in> T"
    and "set s \<inter> T = {}"
  shows "\<not> matchesAnywhere m prev s"
  using assms(2)
proof (induction s arbitrary: prev)
  case Nil
  show ?case by simp
next
  case (Cons c cs)
  have "m prev (c # cs) = None"
    using assms(1)[of prev "c # cs"] Cons.prems by auto
  with Cons show ?case by simp
qed

lemma foldl_no_match:
  "\<forall>m \<in> set ms. \<not> matchesAnywhere m None s
   \<Longrightarrow> foldl (\<lambda>t m. replaceAll m None t) s ms = s"
  by (induction ms) (simp_all add: replaceAll_no_match)

lemma formatMathContent_fold:
  "s \<noteq> [] \<Longrightarrow> formatMathContent s = foldl (\<lambda>t m. replaceAll m None t) s mathPatterns"
  by (simp add: formatMathContent_def mathPatterns_def Let_def foldl_map case_prod_unfold)

lemma mathPatterns_trigger:
  assumes "m \<in> set mathPatterns" and "m p t \<noteq> None"
  shows "t \<noteq> [] \<and> hd t \<in> {codeUnit CHR ''$'', backslash}"
proof -
  have lit: "literal (backslash # name) rep p t \<noteq> None \<Longrightarrow> t \<noteq> [] \<and> hd t = backslash"
    for name rep
    using literal_trigger[of "backslash # name" rep p t] by simp
  have del: "delimited opn cls closing rep p t \<noteq> None \<Longrightarrow> opn \<noteq> []
      \<Longrightarrow> t \<noteq> [] \<and> hd t = hd opn" for opn cls closing rep
    using delimited_trigger[of opn cls closing rep p t] by simp
  from assms(1) consider "m = inlineMath" | "m = displayMath" | "m = mathbf"
    | "m = textCommand" | "m = quad" | "m = latexCommand" | "m = lineBreak"
    | pat rep where "(pat, rep) \<in> set mathSymbols" "m = literal pat rep"
    by (auto simp: mathPatterns_def)
  then show ?thesis
  proof cases
    case 1
    with assms(2) del[of "ascii ''$''"] show ?thesis
      by (simp add: inlineMath_def ascii_def)
  next
    case 2
    with assms(2) del[of "ascii ''$$''"] show ?thesis
      by (simp add: displayMath_def ascii_def)
  next
    case 3
    with assms(2) del[of "backslash # ascii ''mathbf{''"] show ?thesis
      by (simp add: mathbf_def)
  next
    case 4
    with assms(2) del[of "backslash # ascii ''text{''"] show ?thesis
      by (simp add: textCommand_def)
  next
    case 5
    with assms(2) lit show ?thesis by (simp add: quad_def)
  next
    case 6
    with assms(2) latexCommand_trigger show ?thesis by simp
  next
    case 7
    with assms(2) lit[of "[backslash]"] show ?thesis by (simp add: lineBreak_def)
  next
    case (8 pat rep)
    from 8(1) obtain name where "pat = backslash # name"
      by (auto simp: mathSymbols_def)
    with 8(2) assms(2) lit show ?thesis by simp
  qed
qed

lemma plain_no_match:
  assumes "codeUnit CHR ''$'' \<notin> set s" and "backslash \<notin> set s"
    and "m \<in> set mathPatterns"
  shows "\<not> matchesAnywhere m None s"
  by (rule trigger_free_no_match[where T = "{codeUnit CHR ''$'', backslash}"])
    (use assms mathPatterns_trigger in auto)

lemma formatMathContent_no_match:
  assumes "\<forall>m \<in> set mathPatterns. \<not> matchesAnywhere m None s"
  shows "formatMathContent s = s"
proof (cases "s = []")
  case True
  then show ?thesis by (simp add: formatMathContent_def)
next
  case False
  then show ?thesis using assms by (simp add: formatMathContent_fold foldl_no_match)
qed

section \<open>Text cleanup: the white-space steps\<close>

lemma lineTerminator_isSpace: "isLineTerminator c \<Longrightarrow> isSpace c"
  by (auto simp: isLineTerminator_def isSpace_def)

lemma lastIndexWhere_None: "lastIndexWhere P xs = None \<longleftrightarrow> (\<forall>x \<in> set xs. \<not> P x)"
  by (induction xs) (auto split: option.splits)

lemma lastIndexWhere_zero:
  "lastIndexWhere P (c # xs) = Some 0 \<Longrightarrow> P c \<and> (\<forall>x \<in> set xs. \<not> P x)"
  by (auto simp: lastIndexWhere_None[symmetric] split: option.splits if_splits)

lemma lastIndexWhere_holds: "lastIndexWhere P xs = Some k \<Longrightarrow> P (xs ! k)"
  by (induction xs arbitrary: k) (auto split: option.splits if_splits)

lemma lastIndexWhere_less: "lastIndexWhere P xs = Some k \<Longrightarrow> k < length xs"
  by (induction xs arbitrary: k) (auto split: option.splits if_splits)

lemma noSpaceBeforeBreak_Cons:
  "noSpaceBeforeBreak (a # t)
   \<longleftrightarrow> (t = [] \<or> \<not> (isSpace a \<and> isLineTerminator (hd t))) \<and> noSpaceBeforeBreak t"
  by (cases t) auto

lemma noSpaceAfterBreak_Cons:
  "noSpaceAfterBreak (a # t)
   \<longleftrightarrow> (t = [] \<or> \<not> (isLineTerminator a \<and> isSpace (hd t))) \<and> noSpaceAfterBreak t"
  by (cases t) auto

lemma noSpaceBeforeBreak_append: "noSpaceBeforeBreak (xs @ ys) \<Longrightarrow> noSpaceBeforeBreak ys"
  by (induction xs) (auto simp: noSpaceBeforeBreak_Cons)

lemma noSpaceBeforeBreak_dropWhile:
  "noSpaceBeforeBreak t \<Longrightarrow> noSpaceBeforeBreak (dropWhile P t)"
  using noSpaceBeforeBreak_append[of "takeWhile P t" "dropWhile P t"] by simp

lemma lastNonSpace_dropWhile_isSpace:
  "lastNonSpace t \<Longrightarrow> t \<noteq> [] \<Longrightarrow> dropWhile isSpace t \<noteq> []"
proof -
  assume "lastNonSpace t" "t \<noteq> []"
  then have "last t \<in> set t" "\<not> isSpace (last t)" by (simp_all add: lastNonSpace_def)
  then show ?thesis by (auto simp: dropWhile_eq_Nil_conv)
qed

lemma run_without_breaks:
  "isSpace c \<Longrightarrow> noSpaceBeforeBreak (c # cs)
   \<Longrightarrow> \<forall>x \<in> set (takeWhile isSpace cs). \<not> isLineTerminator x"
proof (induction cs arbitrary: c)
  case Nil
  show ?case by simp
next
  case (Cons d ds)
  show ?case
  proof (cases "isSpace d")
    case True
    from Cons.prems have "\<not> isLineTerminator d" "noSpaceBeforeBreak (d # ds)" by simp_all
    with True Cons.IH[of d] show ?thesis by simp
  next
    case False
    then show ?thesis by simp
  qed
qed

lemma trailingSpace_nonspace: "\<not> isSpace c \<Longrightarrow> trailingSpace p (c # cs) = None"
  by (simp add: trailingSpace_def)

lemma trailingSpace_Cons:
  assumes "isSpace c"
  shows "trailingSpace p (c # cs) =
         (if dropWhile isSpace cs = [] then Some ([], Suc (length cs))
          else (case lastIndexWhere isLineTerminator (c # takeWhile isSpace cs) of
                  None \<Rightarrow> None
                | Some k \<Rightarrow> if 1 \<le> k then Some ([], k) else None))"
proof (cases "dropWhile isSpace cs = []")
  case True
  then have "takeWhile isSpace cs = cs"
    by (metis append_Nil2 takeWhile_dropWhile_id)
  then have "length (takeWhile isSpace cs) = length cs" by (rule arg_cong)
  then show ?thesis
    using assms True unfolding trailingSpace_def Let_def
    by (simp del: dropWhile_eq_Nil_conv takeWhile_eq_all_conv)
next
  case False
  then show ?thesis
    using assms unfolding trailingSpace_def Let_def
    by (simp del: dropWhile_eq_Nil_conv takeWhile_eq_all_conv)
qed

lemma trailingSpace_quiet: "quiet t \<Longrightarrow> trailingSpace p t = None"
proof (cases t)
  case Nil
  then show ?thesis by (simp add: trailingSpace_def)
next
  case (Cons c cs)
  assume q: "quiet t"
  show ?thesis
  proof (cases "isSpace c")
    case False
    with Cons show ?thesis by (simp add: trailingSpace_nonspace)
  next
    case True
    from q Cons True have "dropWhile isSpace cs \<noteq> []"
      and "lastIndexWhere isLineTerminator (c # takeWhile isSpace cs) = None"
      unfolding quiet_def lastIndexWhere_None by auto
    then show ?thesis
      unfolding Cons trailingSpace_Cons[OF True] by simp
  qed
qed

lemma trailingSpace_cases:
  assumes "isSpace c"
  obtains (whole) "dropWhile isSpace cs = []" "trailingSpace p (c # cs) = Some ([], Suc (length cs))"
  | (keep) "trailingSpace p (c # cs) = None" "quiet cs"
      "\<forall>x \<in> set (takeWhile isSpace cs). \<not> isLineTerminator x"
  | (cut) k where "trailingSpace p (c # cs) = Some ([], Suc k)" "k < length cs"
      "dropWhile isSpace cs \<noteq> []" "isLineTerminator (cs ! k)"
proof (cases "dropWhile isSpace cs = []")
  case True
  have "trailingSpace p (c # cs) = Some ([], Suc (length cs))"
    unfolding trailingSpace_Cons[OF assms] using True by simp
  with True show ?thesis by (rule whole)
next
  case False
  let ?run = "c # takeWhile isSpace cs"
  show ?thesis
  proof (cases "lastIndexWhere isLineTerminator ?run")
    case None
    then have nb: "\<forall>x \<in> set (takeWhile isSpace cs). \<not> isLineTerminator x"
      unfolding lastIndexWhere_None by simp
    have "trailingSpace p (c # cs) = None"
      unfolding trailingSpace_Cons[OF assms] using False None
        by (simp del: lastIndexWhere.simps dropWhile_eq_Nil_conv)
    moreover have "quiet cs" using False nb by (simp add: quiet_def)
    ultimately show ?thesis using nb by (rule keep)
  next
    case (Some k)
    show ?thesis
    proof (cases k)
      case 0
      with Some have nb: "\<forall>x \<in> set (takeWhile isSpace cs). \<not> isLineTerminator x"
        using lastIndexWhere_zero[of isLineTerminator c "takeWhile isSpace cs"] by simp
      have "trailingSpace p (c # cs) = None"
        unfolding trailingSpace_Cons[OF assms] using False Some 0
        by (simp del: lastIndexWhere.simps dropWhile_eq_Nil_conv)
      moreover have "quiet cs" using False nb by (simp add: quiet_def)
      ultimately show ?thesis using nb by (rule keep)
    next
      case (Suc j)
      have "k < length ?run" using Some by (rule lastIndexWhere_less)
      then have j: "j < length (takeWhile isSpace cs)" using Suc by simp
      then have "j < length cs"
        using length_takeWhile_le[of isSpace cs] by simp
      moreover have "isLineTerminator (cs ! j)"
        using lastIndexWhere_holds[OF Some] Suc takeWhile_nth[OF j] by simp
      moreover have "trailingSpace p (c # cs) = Some ([], Suc j)"
        unfolding trailingSpace_Cons[OF assms] using False Some Suc
        by (simp del: lastIndexWhere.simps dropWhile_eq_Nil_conv)
      ultimately show ?thesis using False by (intro cut[of j]) simp_all
    qed
  qed
qed

lemma replaceAll_None:
  "m prev (c # cs) = None \<Longrightarrow> replaceAll m prev (c # cs) = c # replaceAll m (Some c) cs"
  by simp

lemma replaceAll_removed:
  "m prev (c # cs) = Some ([], Suc k)
   \<Longrightarrow> replaceAll m prev (c # cs) = replaceAll m (Some ((c # cs) ! k)) (drop k cs)"
  by simp

lemma trailingSpace_result:
  assumes "case e of None \<Rightarrow> True | Some x \<Rightarrow> isSpace x \<longrightarrow> quiet s"
  shows "noSpaceBeforeBreak (consOpt e (replaceAll trailingSpace prev s))
         \<and> lastNonSpace (consOpt e (replaceAll trailingSpace prev s))"
  using assms
proof (induction s arbitrary: e prev rule: length_induct)
  case (1 s)
  let ?T = "replaceAll trailingSpace"
  have IH: "noSpaceBeforeBreak (consOpt e' (?T p' t)) \<and> lastNonSpace (consOpt e' (?T p' t))"
    if "length t < length s" "case e' of None \<Rightarrow> True | Some x \<Rightarrow> isSpace x \<longrightarrow> quiet t"
    for t e' p'
    using "1.IH" that by blast
  show ?case
  proof (cases s)
    case Nil
    have "\<not> quiet []" by (simp add: quiet_def)
    with "1.prems" Nil show ?thesis
      by (auto simp: consOpt_def lastNonSpace_def split: option.splits)
  next
    case (Cons c cs)
    show ?thesis
    proof (cases "isSpace c")
      case False
      have out: "?T prev s = c # ?T (Some c) cs"
        unfolding Cons using False by (intro replaceAll_None trailingSpace_nonspace)
      have "noSpaceBeforeBreak (c # ?T (Some c) cs) \<and> lastNonSpace (c # ?T (Some c) cs)"
        using IH[where t = cs and e' = "Some c" and p' = "Some c"] Cons False by (simp add: consOpt_def)
      moreover have "\<not> isLineTerminator c"
        using False lineTerminator_isSpace by blast
      ultimately show ?thesis
        unfolding out by (cases e) (auto simp: consOpt_def lastNonSpace_def)
    next
      case True
      from True show ?thesis
      proof (cases rule: trailingSpace_cases[of c cs prev])
        case whole
        have out: "?T prev s = []"
          unfolding Cons using replaceAll_removed[of trailingSpace prev c cs "length cs"] whole(2)
          by simp
        have "case e of None \<Rightarrow> True | Some x \<Rightarrow> \<not> isSpace x"
          using "1.prems" Cons True whole(1) by (auto simp: quiet_def split: option.splits)
        then show ?thesis
          unfolding out by (auto simp: consOpt_def lastNonSpace_def split: option.splits)
      next
        case keep
        have out: "?T prev s = c # ?T (Some c) cs"
          unfolding Cons using keep(1) by (rule replaceAll_None)
        have r: "noSpaceBeforeBreak (c # ?T (Some c) cs) \<and> lastNonSpace (c # ?T (Some c) cs)"
          using IH[where t = cs and e' = "Some c" and p' = "Some c"] Cons keep(2) by (simp add: consOpt_def)
        have "case e of None \<Rightarrow> True | Some x \<Rightarrow> \<not> (isSpace x \<and> isLineTerminator c)"
          using "1.prems" Cons True by (auto simp: quiet_def split: option.splits)
        with r show ?thesis
          unfolding out by (auto simp: consOpt_def lastNonSpace_def split: option.splits)
      next
        case (cut k)
        have out: "?T prev s = ?T (Some ((c # cs) ! k)) (drop k cs)"
          unfolding Cons using cut(1) by (rule replaceAll_removed)
        have "trailingSpace prev s \<noteq> None" using Cons cut(1) by simp
        then have "\<not> quiet s" using trailingSpace_quiet[of s prev] by auto
        with "1.prems" have ne: "case e of None \<Rightarrow> True | Some x \<Rightarrow> isSpace x \<longrightarrow> quiet (drop k cs)"
          by (auto split: option.splits)
        have "length (drop k cs) < length s" using Cons by simp
        from IH[OF this ne] show ?thesis unfolding out .
      qed
    qed
  qed
qed

lemma tidy_Cons:
  assumes "tidy (Some c) out"
    and "case p of None \<Rightarrow> \<not> isSpace c
         | Some x \<Rightarrow> \<not> (isSpace x \<and> isLineTerminator c) \<and> \<not> (isLineTerminator x \<and> isSpace c)"
  shows "tidy p (c # out)"
  using assms by (cases p) (auto simp: tidy_def consOpt_def lastNonSpace_def)

lemma tidy_tail: "tidy p (c # cs) \<Longrightarrow> tidy (Some c) cs"
  by (cases p) (auto simp: tidy_def consOpt_def lastNonSpace_def)

lemma last_dropWhile: "dropWhile P xs \<noteq> [] \<Longrightarrow> last (dropWhile P xs) = last xs"
  using last_appendR[of "dropWhile P xs" "takeWhile P xs"] by simp

lemma leadingSpace_Cons:
  "leadingSpace p (c # cs) =
     (if isSpace c \<and> (case p of None \<Rightarrow> True | Some x \<Rightarrow> isLineTerminator x)
      then Some ([], Suc (length (takeWhile isSpace cs))) else None)"
  by (simp add: leadingSpace_def Let_def)

lemma leadingSpace_result:
  assumes "noSpaceBeforeBreak (consOpt p t)" and "lastNonSpace (consOpt p t)"
  shows "tidy p (replaceAll leadingSpace p t)"
  using assms
proof (induction t arbitrary: p rule: length_induct)
  case (1 t)
  let ?L = "replaceAll leadingSpace"
  have IH: "tidy (Some w) (?L (Some w) u)"
    if "length u < length t" "noSpaceBeforeBreak (w # u)" "lastNonSpace (w # u)" for w u
    using "1.IH" that by (simp add: consOpt_def)
  show ?case
  proof (cases t)
    case Nil
    with "1.prems" show ?thesis by (cases p) (simp_all add: tidy_def consOpt_def)
  next
    case (Cons c cs)
    from "1.prems" have nb: "noSpaceBeforeBreak (c # cs)" and ln: "lastNonSpace (c # cs)"
      unfolding Cons by (cases p; simp add: consOpt_def lastNonSpace_def)+
    show ?thesis
    proof (cases "isSpace c \<and> (case p of None \<Rightarrow> True | Some x \<Rightarrow> isLineTerminator x)")
      case True
      define n where "n = length (takeWhile isSpace cs)"
      have m: "leadingSpace p (c # cs) = Some ([], Suc n)"
        using True by (simp add: leadingSpace_Cons n_def)
      have d: "drop n cs = dropWhile isSpace cs"
        by (simp add: n_def dropWhile_eq_drop)
      have "dropWhile isSpace (c # cs) \<noteq> []"
        using ln by (intro lastNonSpace_dropWhile_isSpace) simp_all
      with True have ne: "dropWhile isSpace cs \<noteq> []" by simp
      then obtain w u where wu: "dropWhile isSpace cs = w # u" by (cases "dropWhile isSpace cs") auto
      then have w: "\<not> isSpace w" using hd_dropWhile[of isSpace cs] by simp
      have "noSpaceBeforeBreak (dropWhile isSpace cs)"
        using nb by (intro noSpaceBeforeBreak_dropWhile) (simp add: noSpaceBeforeBreak_Cons)
      then have a1: "noSpaceBeforeBreak (w # u)" by (simp add: wu)
      have "last (w # u) = last (c # cs)"
        using last_dropWhile[of isSpace cs] ne wu by auto
      then have a2: "lastNonSpace (w # u)" using ln by (simp add: lastNonSpace_def)
      have "length (dropWhile isSpace cs) \<le> length cs" by (rule length_dropWhile_le)
      then have len: "length u < length t" using wu Cons by simp
      have "leadingSpace q (w # u) = None" for q
        using w by (simp add: leadingSpace_Cons)
      then have "?L p t = w # ?L (Some w) u"
        unfolding Cons replaceAll_removed[of leadingSpace p c cs n, OF m] d wu
        by (rule replaceAll_None)
      moreover have "tidy p (w # ?L (Some w) u)"
        using IH[OF len a1 a2] w lineTerminator_isSpace[of w]
        by (intro tidy_Cons) (auto split: option.splits)
      ultimately show ?thesis by simp
    next
      case False
      then have "leadingSpace p (c # cs) = None" by (simp add: leadingSpace_Cons)
      then have out: "?L p t = c # ?L (Some c) cs"
        unfolding Cons by (rule replaceAll_None)
      have "tidy (Some c) (?L (Some c) cs)"
        using IH[where u = cs and w = c] Cons nb ln by simp
      moreover have "case p of None \<Rightarrow> \<not> isSpace c
         | Some x \<Rightarrow> \<not> (isSpace x \<and> isLineTerminator c) \<and> \<not> (isLineTerminator x \<and> isSpace c)"
        using False "1.prems"(1) unfolding Cons by (cases p) (auto simp: consOpt_def)
      ultimately show ?thesis unfolding out by (rule tidy_Cons)
    qed
  qed
qed

lemma trim_tidy: "tidy None y \<Longrightarrow> trim y = y"
proof -
  assume t: "tidy None y"
  then have "dropWhile isSpace y = y"
    by (cases y) (auto simp: tidy_def)
  moreover have "dropWhile isSpace (rev y) = rev y"
    using t by (cases "rev y") (auto simp: tidy_def consOpt_def lastNonSpace_def last_rev hd_rev)
  ultimately show ?thesis by (simp add: trim_def)
qed

lemma spaceSteps_tidy:
  "tidy None (replaceAll leadingSpace None (replaceAll trailingSpace None x))"
proof -
  let ?t = "replaceAll trailingSpace None x"
  have "noSpaceBeforeBreak ?t \<and> lastNonSpace ?t"
    using trailingSpace_result[where e = None and s = x and prev = None]
    by (simp add: consOpt_def)
  then show ?thesis
    by (intro leadingSpace_result) (simp_all add: consOpt_def)
qed

lemma replaceAll_invariant_id:
  assumes "\<And>p c cs. I p (c # cs) \<Longrightarrow> m p (c # cs) = None \<and> I (Some c) cs"
    and "I prev s"
  shows "replaceAll m prev s = s"
  using assms(2)
proof (induction s arbitrary: prev)
  case Nil
  show ?case by simp
next
  case (Cons c cs)
  from assms(1)[OF Cons.prems] have "m prev (c # cs) = None" "I (Some c) cs" by simp_all
  with Cons.IH show ?case by simp
qed

lemma newlineRun_tidy: "tidy p (c # cs) \<Longrightarrow> newlineRun p (c # cs) = None"
proof (rule ccontr)
  assume t: "tidy p (c # cs)" and "newlineRun p (c # cs) \<noteq> None"
  then have "3 \<le> length (takeWhile (\<lambda>x. x = LF) (c # cs))"
    by (simp add: newlineRun_def Let_def split: if_splits)
  then obtain ds where "c = LF" "cs = LF # ds"
    by (cases cs) (auto split: if_splits)
  moreover have "isSpace LF" "isLineTerminator LF"
    by (simp_all add: isSpace_def isLineTerminator_def LF_def)
  ultimately show False using t by (cases p) (auto simp: tidy_def consOpt_def)
qed

lemma trailingSpace_tidy: "tidy p (c # cs) \<Longrightarrow> trailingSpace p (c # cs) = None"
proof (cases "isSpace c")
  case False
  then show ?thesis by (rule trailingSpace_nonspace)
next
  case True
  assume "tidy p (c # cs)"
  then have nb: "noSpaceBeforeBreak (c # cs)" and ln: "lastNonSpace (c # cs)"
    by (cases p; simp add: tidy_def consOpt_def lastNonSpace_def)+
  have "dropWhile isSpace (c # cs) \<noteq> []"
    using ln by (intro lastNonSpace_dropWhile_isSpace) simp_all
  with True have "dropWhile isSpace cs \<noteq> []" by simp
  moreover have "lastIndexWhere isLineTerminator (takeWhile isSpace cs) = None"
    unfolding lastIndexWhere_None using run_without_breaks[OF True nb] .
  ultimately show ?thesis
    unfolding trailingSpace_Cons[OF True] by (simp del: dropWhile_eq_Nil_conv)
qed

lemma leadingSpace_tidy: "tidy p (c # cs) \<Longrightarrow> leadingSpace p (c # cs) = None"
  by (cases p) (auto simp: leadingSpace_Cons tidy_def consOpt_def)

section \<open>Text cleanup: what the later steps keep\<close>

lemma tidy_head:
  "tidy p (c # cs)
   \<Longrightarrow> case p of None \<Rightarrow> \<not> isSpace c
       | Some x \<Rightarrow> \<not> (isSpace x \<and> isLineTerminator c) \<and> \<not> (isLineTerminator x \<and> isSpace c)"
  by (cases p) (auto simp: tidy_def consOpt_def)

lemma tidy_swap:
  assumes "\<not> isSpace b" and "\<not> isSpace r" and "tidy (Some b) out"
  shows "tidy (Some r) out"
  using assms lineTerminator_isSpace[of b] lineTerminator_isSpace[of r]
  by (auto simp: tidy_def consOpt_def noSpaceBeforeBreak_Cons noSpaceAfterBreak_Cons
      lastNonSpace_def)

lemma literal_tidy:
  assumes "\<not> isSpace a" and "\<not> isSpace b" and "\<not> isSpace r" and "tidy p t"
  shows "tidy p (replaceAll (literal [a, b] [r]) q t)"
  using assms(4)
proof (induction t arbitrary: p q rule: length_induct)
  case (1 t)
  let ?R = "replaceAll (literal [a, b] [r])"
  have IH: "tidy (Some w) (?R q' u)" if "length u < length t" "tidy (Some w) u" for w u q'
    using "1.IH" that by blast
  show ?case
  proof (cases t)
    case Nil
    with "1.prems" show ?thesis by simp
  next
    case (Cons c cs)
    show ?thesis
    proof (cases "startsWith (c # cs) [a, b]")
      case True
      then obtain u where u: "c = a" "cs = b # u" by (cases cs) auto
      have "?R q t = r # ?R (Some b) u"
        unfolding Cons u by (simp add: literal_def)
      moreover have "tidy (Some b) u"
        using "1.prems" unfolding Cons u by (intro tidy_tail[of "Some a" b u] tidy_tail[of p a])
      then have "tidy (Some r) (?R (Some b) u)"
        using IH[of u b "Some b"] Cons u assms(2,3) by (intro tidy_swap[of b r]) simp_all
      then have "tidy p (r # ?R (Some b) u)"
        using assms(3) lineTerminator_isSpace[of r]
        by (intro tidy_Cons) (auto split: option.splits)
      ultimately show ?thesis by simp
    next
      case False
      then have "literal [a, b] [r] q (c # cs) = None"
        by (simp only: literal_def if_False)
      then have "?R q t = c # ?R (Some c) cs"
        unfolding Cons by (rule replaceAll_None)
      moreover have "tidy (Some c) (?R (Some c) cs)"
        using IH[of cs c "Some c"] Cons tidy_tail[of p c cs] "1.prems" by simp
      then have "tidy p (c # ?R (Some c) cs)"
        using tidy_head[of p c cs] "1.prems" Cons by (intro tidy_Cons) simp_all
      ultimately show ?thesis by simp
    qed
  qed
qed

lemma truncateAt_prefix: "\<exists>v. s = truncateAt lit s @ v"
  by (induction s) auto

lemma noSpaceBeforeBreak_prefix: "noSpaceBeforeBreak (xs @ ys) \<Longrightarrow> noSpaceBeforeBreak xs"
  by (induction xs) (auto simp: noSpaceBeforeBreak_Cons hd_append)

lemma noSpaceAfterBreak_prefix: "noSpaceAfterBreak (xs @ ys) \<Longrightarrow> noSpaceAfterBreak xs"
  by (induction xs) (auto simp: noSpaceAfterBreak_Cons hd_append)

lemma tidy_prefix: "tidy None (w @ v) \<Longrightarrow> lastNonSpace w \<Longrightarrow> tidy None w"
  using noSpaceBeforeBreak_prefix[of w v] noSpaceAfterBreak_prefix[of w v]
  by (auto simp: tidy_def consOpt_def hd_append)

lemma trim_prefix_tidy:
  assumes "tidy None (u @ v)"
  shows "tidy None (trim u)"
proof -
  define w where "w = rev (dropWhile isSpace (rev u))"
  have "dropWhile isSpace u = u"
    using assms by (cases u) (auto simp: tidy_def)
  then have tr: "trim u = w" by (simp add: trim_def w_def)
  have "u = w @ rev (takeWhile isSpace (rev u))"
    unfolding w_def by (metis rev_append rev_rev_ident takeWhile_dropWhile_id)
  then have "u @ v = w @ (rev (takeWhile isSpace (rev u)) @ v)" by simp
  with assms have "tidy None (w @ (rev (takeWhile isSpace (rev u)) @ v))" by simp
  moreover have "lastNonSpace w"
    using hd_dropWhile[of isSpace "rev u"]
    by (auto simp: lastNonSpace_def w_def last_rev)
  ultimately show ?thesis unfolding tr by (rule tidy_prefix)
qed

lemma cleanAnswerText_tidy: "tidy None (cleanAnswerText s)"
proof (cases "s = []")
  case True
  then show ?thesis
    by (simp add: cleanAnswerText_def tidy_def consOpt_def lastNonSpace_def)
next
  case False
  define z0 where "z0 = replaceAll newlineRun None
    (truncateAt (ascii ''**Memory Techniques:**'')
      (truncateAt (ascii ''### **Memory Techniques**'')
        (replaceAll typeRow None (replaceAll tableRule None s))))"
  define z2 where "z2 = replaceAll (literal escapedClose (ascii '']'')) None
    (replaceAll (literal escapedOpen (ascii ''['')) None
      (replaceAll (literal escapedDollar (ascii ''$'')) None
        (replaceAll leadingSpace None (replaceAll trailingSpace None z0))))"
  define t1 where "t1 = truncateAt (ascii ''[Image of'') z2"
  define t2 where "t2 = truncateAt (ascii ''(Note:'') t1"
  have ns: "\<not> isSpace backslash" "\<not> isSpace (codeUnit CHR ''$'')"
    "\<not> isSpace (codeUnit CHR ''['')" "\<not> isSpace (codeUnit CHR '']'')"
    by (simp_all add: isSpace_def backslash_def codeUnit_def)
  have "tidy None z2"
    unfolding z2_def escapedDollar_def escapedOpen_def escapedClose_def ascii_def list.map
    by (intro literal_tidy ns spaceSteps_tidy)
  moreover obtain v1 where v1: "t1 @ v1 = z2"
    unfolding t1_def using truncateAt_prefix[of z2 "ascii ''[Image of''"] by metis
  moreover obtain v2 where v2: "t2 @ v2 = t1"
    unfolding t2_def using truncateAt_prefix[of t1 "ascii ''(Note:''"] by metis
  have "t2 @ (v2 @ v1) = z2"
    by (simp only: append_assoc[symmetric] v2 v1)
  ultimately have "tidy None (t2 @ (v2 @ v1))"
    by simp
  then have "tidy None (trim t2)"
    by (rule trim_prefix_tidy)
  moreover have "cleanAnswerText s = trim t2"
    using False by (simp add: cleanAnswerText_def t2_def t1_def z2_def z0_def)
  ultimately show ?thesis by simp
qed

section \<open>Text cleanup: literals that a first result cannot contain\<close>

lemma startsWith_iff: "startsWith s pat \<longleftrightarrow> (\<exists>v. s = pat @ v)"
  by (induction s pat rule: startsWith.induct) auto

lemma strIncludes_iff: "strIncludes s pat \<longleftrightarrow> (\<exists>u v. s = u @ pat @ v)"
proof (induction s)
  case Nil
  show ?case by auto
next
  case (Cons c cs)
  have "(\<exists>u v. c # cs = u @ pat @ v)
      \<longleftrightarrow> (\<exists>v. c # cs = pat @ v) \<or> (\<exists>u v. cs = u @ pat @ v)"
  proof
    assume "\<exists>u v. c # cs = u @ pat @ v"
    then obtain u v where uv: "c # cs = u @ pat @ v" by blast
    show "(\<exists>v. c # cs = pat @ v) \<or> (\<exists>u v. cs = u @ pat @ v)"
    proof (cases u)
      case Nil
      with uv show ?thesis by auto
    next
      case (Cons d u')
      with uv have "cs = u' @ pat @ v" by simp
      then show ?thesis by blast
    qed
  next
    assume "(\<exists>v. c # cs = pat @ v) \<or> (\<exists>u v. cs = u @ pat @ v)"
    then show "\<exists>u v. c # cs = u @ pat @ v"
    proof
      assume "\<exists>v. c # cs = pat @ v"
      then obtain v where "c # cs = [] @ pat @ v" by auto
      then show ?thesis by blast
    next
      assume "\<exists>u v. cs = u @ pat @ v"
      then obtain u v where "c # cs = (c # u) @ pat @ v" by auto
      then show ?thesis by blast
    qed
  qed
  with Cons show ?case by (simp add: startsWith_iff)
qed

lemma strIncludes_inside: "strIncludes x M \<Longrightarrow> strIncludes (a @ x @ b) M"
proof -
  assume "strIncludes x M"
  then obtain u v where "x = u @ M @ v" unfolding strIncludes_iff by blast
  then have "a @ x @ b = (a @ u) @ M @ (v @ b)" by simp
  then show ?thesis unfolding strIncludes_iff by blast
qed

lemma strIncludes_prefix: "strIncludes a M \<Longrightarrow> strIncludes (a @ b) M"
  using strIncludes_inside[of a M "[]" b] by simp

lemma strIncludes_suffix: "strIncludes b M \<Longrightarrow> strIncludes (a @ b) M"
  using strIncludes_inside[of b M a "[]"] by simp

lemma strIncludes_set: "strIncludes x M \<Longrightarrow> set M \<subseteq> set x"
  unfolding strIncludes_iff by auto

lemma strIncludes_split:
  assumes "strIncludes (a @ b) M" and "\<not> strIncludes a M" and "\<not> strIncludes b M"
  shows "a \<noteq> [] \<and> b \<noteq> [] \<and> last a \<in> set M \<and> hd b \<in> set M"
proof -
  from assms(1) obtain u v where uv: "a @ b = u @ M @ v"
    unfolding strIncludes_iff by blast
  then consider w where "a = u @ w" "w @ b = M @ v" | w where "a @ w = u" "b = w @ M @ v"
    by (auto simp: append_eq_append_conv2)
  then show ?thesis
  proof cases
    case 1
    from 1(2) consider w' where "w = M @ w'" "w' @ b = v" | w' where "w @ w' = M" "b = w' @ v"
      by (auto simp: append_eq_append_conv2)
    then show ?thesis
    proof cases
      case 1
      with \<open>a = u @ w\<close> have "a = u @ M @ w'" by simp
      with assms(2) show ?thesis unfolding strIncludes_iff by blast
    next
      case 2
      have "w \<noteq> []"
      proof
        assume "w = []"
        with 2 have "b = [] @ M @ v" by simp
        with assms(3) show False unfolding strIncludes_iff by blast
      qed
      moreover have "w' \<noteq> []"
      proof
        assume "w' = []"
        with 2 \<open>a = u @ w\<close> have "a = u @ M @ []" by simp
        with assms(2) show False unfolding strIncludes_iff by blast
      qed
      ultimately show ?thesis
        using 2 \<open>a = u @ w\<close> by auto
    qed
  next
    case 2
    with assms(3) show ?thesis unfolding strIncludes_iff by blast
  qed
qed

lemma truncateAt_id: "\<not> strIncludes s M \<Longrightarrow> truncateAt M s = s"
  by (induction s) auto

lemma truncateAt_without: "M \<noteq> [] \<Longrightarrow> \<not> strIncludes (truncateAt M s) M"
proof (induction s)
  case Nil
  then show ?case by simp
next
  case (Cons c cs)
  show ?case
  proof (cases "startsWith (c # cs) M")
    case True
    with Cons.prems show ?thesis by simp
  next
    case False
    obtain v where v: "cs = truncateAt M cs @ v"
      using truncateAt_prefix by blast
    have "\<not> startsWith (c # truncateAt M cs) M"
    proof
      assume "startsWith (c # truncateAt M cs) M"
      then obtain w where "c # truncateAt M cs = M @ w" unfolding startsWith_iff by blast
      then have "c # truncateAt M cs @ v = M @ (w @ v)" by simp
      with v have "c # cs = M @ (w @ v)" by simp
      with False show False unfolding startsWith_iff by blast
    qed
    with False Cons show ?thesis by simp
  qed
qed

lemma truncateAt_keeps_absent: "\<not> strIncludes s M \<Longrightarrow> \<not> strIncludes (truncateAt lit s) M"
  using truncateAt_prefix[of s lit] strIncludes_prefix[of "truncateAt lit s" M] by metis

lemma trim_inside: "\<exists>a b. s = a @ trim s @ b"
proof -
  let ?d = "dropWhile isSpace s"
  have "?d = rev (dropWhile isSpace (rev ?d)) @ rev (takeWhile isSpace (rev ?d))"
    by (metis rev_append rev_rev_ident takeWhile_dropWhile_id)
  then have "s = takeWhile isSpace s @ trim s @ rev (takeWhile isSpace (rev ?d))"
    unfolding trim_def by (metis takeWhile_dropWhile_id)
  then show ?thesis by blast
qed

lemma trim_keeps_absent: "\<not> strIncludes s M \<Longrightarrow> \<not> strIncludes (trim s) M"
  using trim_inside[of s] strIncludes_inside[of "trim s" M] by metis

lemma drop_suffix: "\<exists>u. c # cs = u @ drop k cs"
  by (intro exI[of _ "c # take k cs"]) simp

lemma absent_around_replacement:
  assumes "r \<noteq> []" and "set r \<inter> set M = {}" and "M \<noteq> []"
    and nopre: "\<not> strIncludes pre M" and norest: "\<not> strIncludes rest M"
  shows "\<not> strIncludes ((pre @ r) @ rest) M"
proof -
  have nor: "\<not> strIncludes r M"
  proof
    assume "strIncludes r M"
    then have "set M \<subseteq> set r" by (rule strIncludes_set)
    moreover have "hd M \<in> set M" using assms(3) by simp
    ultimately show False using assms(2) by blast
  qed
  have inner: "\<not> strIncludes (r @ rest) M"
  proof
    assume "strIncludes (r @ rest) M"
    from strIncludes_split[OF this nor norest] have "last r \<in> set M" by blast
    moreover have "last r \<in> set r" using assms(1) by simp
    ultimately show False using assms(2) by blast
  qed
  have "\<not> strIncludes (pre @ (r @ rest)) M"
  proof
    assume "strIncludes (pre @ (r @ rest)) M"
    from strIncludes_split[OF this nopre inner] have "hd (r @ rest) \<in> set M" by blast
    then have "hd r \<in> set M" using assms(1) by simp
    moreover have "hd r \<in> set r" using assms(1) by simp
    ultimately show False using assms(2) by blast
  qed
  then show ?thesis by simp
qed

lemma replaceAll_keeps_absent:
  assumes "\<And>p t r n. m p t = Some (r, n) \<Longrightarrow> r \<noteq> [] \<and> set r \<inter> set M = {}"
    and "M \<noteq> []"
    and "\<not> strIncludes (pre @ s) M"
  shows "\<not> strIncludes (pre @ replaceAll m prev s) M"
  using assms(3)
proof (induction s arbitrary: pre prev rule: length_induct)
  case (1 s)
  have IH: "\<not> strIncludes (p' @ replaceAll m q u) M"
    if "length u < length s" "\<not> strIncludes (p' @ u) M" for p' q u
    using "1.IH" that by blast
  show ?case
  proof (cases s)
    case Nil
    with "1.prems" show ?thesis by simp
  next
    case (Cons c cs)
    show ?thesis
    proof (cases "m prev (c # cs)")
      case None
      have len: "length cs < length s" using Cons by simp
      have "\<not> strIncludes ((pre @ [c]) @ cs) M"
        using "1.prems" Cons by simp
      from IH[OF len this] have "\<not> strIncludes ((pre @ [c]) @ replaceAll m (Some c) cs) M" .
      moreover have "replaceAll m prev s = c # replaceAll m (Some c) cs"
        unfolding Cons using None by (rule replaceAll_None)
      ultimately show ?thesis by simp
    next
      case (Some a)
      obtain r n where a: "a = (r, n)" by (cases a)
      let ?rest = "drop (n - 1) cs"
      have match: "m prev (c # cs) = Some (r, n)" using Some a by simp
      from assms(1)[OF match] have r: "r \<noteq> []" "set r \<inter> set M = {}" by simp_all
      obtain u where u: "c # cs = u @ ?rest"
        using drop_suffix[of c cs "n - 1"] by auto
      have nopre: "\<not> strIncludes pre M"
        using "1.prems" strIncludes_prefix by blast
      have "pre @ s = (pre @ u) @ ?rest" using u Cons by simp
      then have norest: "\<not> strIncludes ?rest M"
        using "1.prems" strIncludes_suffix[of ?rest M "pre @ u"] by metis
      have step: "\<not> strIncludes ((pre @ r) @ ?rest) M"
        using r assms(2) nopre norest by (rule absent_around_replacement)
      have len: "length ?rest < length s" using Cons by simp
      from IH[OF len step]
      have "\<not> strIncludes ((pre @ r) @ replaceAll m (Some ((c # cs) ! (n - 1))) ?rest) M" .
      moreover have "replaceAll m prev s
          = r @ replaceAll m (Some ((c # cs) ! (n - 1))) ?rest"
        unfolding Cons using match by simp
      ultimately show ?thesis by simp
    qed
  qed
qed

lemma trailingSpace_keeps_absent:
  assumes "\<forall>x \<in> set M. \<not> isLineTerminator x"
    and "\<not> strIncludes (pre @ s) M"
  shows "\<not> strIncludes (pre @ replaceAll trailingSpace prev s) M"
  using assms(2)
proof (induction s arbitrary: pre prev rule: length_induct)
  case (1 s)
  let ?T = "replaceAll trailingSpace"
  have IH: "\<not> strIncludes (p' @ ?T q u) M"
    if "length u < length s" "\<not> strIncludes (p' @ u) M" for p' q u
    using "1.IH" that by blast
  have step: "\<not> strIncludes (pre @ c # ?T (Some c) cs) M" if "s = c # cs" for c cs
  proof -
    have "\<not> strIncludes ((pre @ [c]) @ cs) M"
      using "1.prems" that by simp
    moreover have "length cs < length s" using that by simp
    ultimately have "\<not> strIncludes ((pre @ [c]) @ ?T (Some c) cs) M"
      using IH[of cs "pre @ [c]" "Some c"] by blast
    then show ?thesis by simp
  qed
  show ?case
  proof (cases s)
    case Nil
    with "1.prems" show ?thesis by simp
  next
    case (Cons c cs)
    show ?thesis
    proof (cases "isSpace c")
      case False
      then have "?T prev s = c # ?T (Some c) cs"
        unfolding Cons by (intro replaceAll_None trailingSpace_nonspace)
      with step[OF Cons] show ?thesis by simp
    next
      case True
      from True show ?thesis
      proof (cases rule: trailingSpace_cases[of c cs prev])
        case whole
        have "?T prev s = []"
          unfolding Cons using replaceAll_removed[of trailingSpace prev c cs "length cs"] whole(2)
          by simp
        moreover have "\<not> strIncludes pre M"
          using "1.prems" strIncludes_prefix by blast
        ultimately show ?thesis by simp
      next
        case keep
        have "?T prev s = c # ?T (Some c) cs"
          unfolding Cons using keep(1) by (rule replaceAll_None)
        with step[OF Cons] show ?thesis by simp
      next
        case (cut k)
        let ?rest = "drop k cs"
        have out: "?T prev s = ?T (Some ((c # cs) ! k)) ?rest"
          unfolding Cons using cut(1) by (rule replaceAll_removed)
        have rest: "?rest = cs ! k # drop (Suc k) cs"
          using cut(2) by (simp add: Cons_nth_drop_Suc)
        have "s = (c # take k cs) @ ?rest" using Cons by simp
        then have "pre @ s = (pre @ c # take k cs) @ ?rest" by simp
        then have norest: "\<not> strIncludes ?rest M"
          using "1.prems" strIncludes_suffix[of ?rest M "pre @ c # take k cs"] by metis
        have nopre: "\<not> strIncludes pre M"
          using "1.prems" strIncludes_prefix by blast
        have "\<not> strIncludes (pre @ ?rest) M"
        proof
          assume "strIncludes (pre @ ?rest) M"
          from strIncludes_split[OF this nopre norest] have "hd ?rest \<in> set M" by blast
          then have "cs ! k \<in> set M" by (simp only: rest list.sel)
          with cut(4) assms(1) show False by blast
        qed
        moreover have "length ?rest < length s" using Cons by simp
        ultimately show ?thesis
          unfolding out using IH[of ?rest pre "Some ((c # cs) ! k)"] by blast
      qed
    qed
  qed
qed

lemma leadingSpace_keeps_absent:
  assumes "\<forall>x \<in> set M. \<not> isLineTerminator x"
    and "\<not> strIncludes (pre @ s) M"
    and "prev = (if pre = [] then None else Some (last pre))"
  shows "\<not> strIncludes (pre @ replaceAll leadingSpace prev s) M"
  using assms(2,3)
proof (induction s arbitrary: pre prev rule: length_induct)
  case (1 s)
  let ?L = "replaceAll leadingSpace"
  have IH: "\<not> strIncludes ((pre @ [w]) @ ?L (Some w) u) M"
    if "length u < length s" "\<not> strIncludes ((pre @ [w]) @ u) M" for w u
  proof -
    have "Some w = (if pre @ [w] = [] then None else Some (last (pre @ [w])))" by simp
    with "1.IH" that show ?thesis by blast
  qed
  show ?case
  proof (cases s)
    case Nil
    with "1.prems" show ?thesis by simp
  next
    case (Cons c cs)
    show ?thesis
    proof (cases "isSpace c \<and> (case prev of None \<Rightarrow> True | Some x \<Rightarrow> isLineTerminator x)")
      case False
      then have "leadingSpace prev (c # cs) = None" by (simp add: leadingSpace_Cons)
      then have out: "?L prev s = c # ?L (Some c) cs"
        unfolding Cons by (rule replaceAll_None)
      have "\<not> strIncludes ((pre @ [c]) @ cs) M"
        using "1.prems"(1) Cons by simp
      moreover have "length cs < length s" using Cons by simp
      ultimately have "\<not> strIncludes ((pre @ [c]) @ ?L (Some c) cs) M"
        using IH[of cs c] by blast
      with out show ?thesis by simp
    next
      case True
      define n where "n = length (takeWhile isSpace cs)"
      have m: "leadingSpace prev (c # cs) = Some ([], Suc n)"
        using True by (simp add: leadingSpace_Cons n_def)
      have d: "drop n cs = dropWhile isSpace cs"
        by (simp add: n_def dropWhile_eq_drop)
      have out: "?L prev s = ?L (Some ((c # cs) ! n)) (dropWhile isSpace cs)"
        unfolding Cons replaceAll_removed[of leadingSpace prev c cs n, OF m] d ..
      have nopre: "\<not> strIncludes pre M"
        using "1.prems"(1) strIncludes_prefix by blast
      have barrier: "pre = [] \<or> last pre \<notin> set M"
      proof (cases "pre = []")
        case True
        then show ?thesis by simp
      next
        case False
        with "1.prems"(2) have "prev = Some (last pre)" by simp
        with True have "isLineTerminator (last pre)" by simp
        with assms(1) show ?thesis by blast
      qed
      show ?thesis
      proof (cases "dropWhile isSpace cs")
        case Nil
        with out nopre show ?thesis by simp
      next
        case (Cons w u)
        then have w: "\<not> isSpace w" using hd_dropWhile[of isSpace cs] by simp
        have "s = (c # takeWhile isSpace cs) @ (w # u)"
          using \<open>s = c # cs\<close> Cons by (metis append_Cons takeWhile_dropWhile_id)
        then have "pre @ s = (pre @ c # takeWhile isSpace cs) @ (w # u)" by simp
        then have norest: "\<not> strIncludes (w # u) M"
          using "1.prems"(1) strIncludes_suffix[of "w # u" M "pre @ c # takeWhile isSpace cs"]
          by metis
        have "\<not> strIncludes (pre @ (w # u)) M"
        proof
          assume "strIncludes (pre @ (w # u)) M"
          from strIncludes_split[OF this nopre norest] have "pre \<noteq> [] \<and> last pre \<in> set M"
            by blast
          with barrier show False by blast
        qed
        then have a: "\<not> strIncludes ((pre @ [w]) @ u) M" by simp
        have "length (dropWhile isSpace cs) \<le> length cs" by (rule length_dropWhile_le)
        then have len: "length u < length s" using Cons \<open>s = c # cs\<close> by simp
        have "leadingSpace q (w # u) = None" for q
          using w by (simp add: leadingSpace_Cons)
        then have "?L prev s = w # ?L (Some w) u"
          unfolding out Cons by (rule replaceAll_None)
        with IH[OF len a] show ?thesis by simp
      qed
    qed
  qed
qed

lemma literal_no_match:
  "\<not> strIncludes s lit \<Longrightarrow> \<not> matchesAnywhere (literal lit rep) prev s"
  by (induction s arbitrary: prev) (auto simp: literal_def)

lemma literal_match: "strIncludes s lit \<Longrightarrow> lit \<noteq> [] \<Longrightarrow> matchesAnywhere (literal lit rep) prev s"
  by (induction s arbitrary: prev) (auto simp: literal_def)


lemma no_match_suffix:
  assumes "\<And>p t. m p t \<noteq> None \<Longrightarrow> strIncludes t M"
    and "\<not> strIncludes s M"
  shows "\<not> matchesAnywhere m prev s"
  using assms(2)
proof (induction s arbitrary: prev)
  case Nil
  show ?case by simp
next
  case (Cons c cs)
  have "m prev (c # cs) = None"
    using assms(1)[of prev "c # cs"] Cons.prems by blast
  moreover have "\<not> strIncludes cs M"
    using Cons.prems strIncludes_suffix[of cs M "[c]"] by auto
  ultimately show ?case using Cons.IH by simp
qed

lemma expect_suffix: "expect lit s = Some t \<Longrightarrow> \<exists>u. s = u @ t"
proof -
  assume "expect lit s = Some t"
  then have t: "t = drop (length lit) (dropWhile isSpace s)"
    by (simp add: expect_def Let_def split: if_splits)
  have "s = takeWhile isSpace s @ dropWhile isSpace s" by simp
  also have "dropWhile isSpace s
      = take (length lit) (dropWhile isSpace s) @ drop (length lit) (dropWhile isSpace s)"
    by simp
  finally have "s = (takeWhile isSpace s @ take (length lit) (dropWhile isSpace s)) @ t"
    unfolding t by simp
  then show ?thesis by blast
qed

lemma afterFirst_includes: "afterFirst lit s = Some t \<Longrightarrow> strIncludes s lit"
  by (induction s) (auto split: if_splits)

lemma tableRule_blank_line: "tableRule p s \<noteq> None \<Longrightarrow> strIncludes s [LF, LF]"
proof -
  assume "tableRule p s \<noteq> None"
  then obtain s1 s2 s3 s4 s5 s6 rest where
    e: "expect (ascii '':'') (drop 1 s) = Some s1" "expect (ascii ''---'') s1 = Some s2"
       "expect (ascii ''|'') s2 = Some s3" "expect (ascii '':'') s3 = Some s4"
       "expect (ascii ''---'') s4 = Some s5" "expect (ascii ''|'') s5 = Some s6"
       "afterFirst [LF, LF] s6 = Some rest"
    by (auto simp: tableRule_def bind_eq_Some_conv split: if_splits option.splits)
  from e(7) have "strIncludes s6 [LF, LF]" by (rule afterFirst_includes)
  moreover obtain u6 where "s5 = u6 @ s6" using expect_suffix[OF e(6)] by blast
  moreover obtain u5 where "s4 = u5 @ s5" using expect_suffix[OF e(5)] by blast
  moreover obtain u4 where "s3 = u4 @ s4" using expect_suffix[OF e(4)] by blast
  moreover obtain u3 where "s2 = u3 @ s3" using expect_suffix[OF e(3)] by blast
  moreover obtain u2 where "s1 = u2 @ s2" using expect_suffix[OF e(2)] by blast
  moreover obtain u1 where "drop 1 s = u1 @ s1" using expect_suffix[OF e(1)] by blast
  moreover have "s = take 1 s @ drop 1 s" by simp
  ultimately have "s = (take 1 s @ u1 @ u2 @ u3 @ u4 @ u5 @ u6) @ s6" by simp
  with \<open>strIncludes s6 [LF, LF]\<close> show ?thesis
    using strIncludes_suffix[of s6 "[LF, LF]" "take 1 s @ u1 @ u2 @ u3 @ u4 @ u5 @ u6"] by simp
qed

lemma tidy_no_blank_line: "tidy p t \<Longrightarrow> \<not> strIncludes t [LF, LF]"
proof
  assume t: "tidy p t" and "strIncludes t [LF, LF]"
  then obtain u v where "t = u @ [LF, LF] @ v" unfolding strIncludes_iff by blast
  then have "consOpt p t = (consOpt p u) @ (LF # LF # v)"
    by (cases p) (simp_all add: consOpt_def)
  moreover have "noSpaceBeforeBreak (consOpt p t)" using t by (simp add: tidy_def)
  ultimately have "noSpaceBeforeBreak (LF # LF # v)"
    using noSpaceBeforeBreak_append[of "consOpt p u" "LF # LF # v"] by simp
  then show False by (simp add: isSpace_def isLineTerminator_def LF_def)
qed

lemma tableRule_tidy: "tidy None y \<Longrightarrow> \<not> matchesAnywhere tableRule prev y"
  using no_match_suffix[of tableRule "[LF, LF]" y prev] tableRule_blank_line tidy_no_blank_line
  by blast

lemma spaceSteps_id:
  assumes "tidy None y"
  shows "replaceAll newlineRun None y = y" and "replaceAll trailingSpace None y = y"
    and "replaceAll leadingSpace None y = y"
proof -
  show "replaceAll newlineRun None y = y"
    by (rule replaceAll_invariant_id[where I = tidy, OF _ assms])
      (use newlineRun_tidy tidy_tail in blast)
  show "replaceAll trailingSpace None y = y"
    by (rule replaceAll_invariant_id[where I = tidy, OF _ assms])
      (use trailingSpace_tidy tidy_tail in blast)
  show "replaceAll leadingSpace None y = y"
    by (rule replaceAll_invariant_id[where I = tidy, OF _ assms])
      (use leadingSpace_tidy tidy_tail in blast)
qed

lemma literal_replacement: "literal lit rep p t = Some (r, n) \<Longrightarrow> r = rep"
  by (simp add: literal_def split: if_splits)

lemma spaceAndEscapes_keep_absent:
  assumes "M \<noteq> []" and "\<forall>x \<in> set M. \<not> isLineTerminator x"
    and "codeUnit CHR ''$'' \<notin> set M" and "codeUnit CHR ''['' \<notin> set M"
    and "codeUnit CHR '']'' \<notin> set M"
    and "\<not> strIncludes x M"
  shows "\<not> strIncludes
    (replaceAll (literal escapedClose (ascii '']'')) None
      (replaceAll (literal escapedOpen (ascii ''['')) None
        (replaceAll (literal escapedDollar (ascii ''$'')) None
          (replaceAll leadingSpace None (replaceAll trailingSpace None
            (replaceAll newlineRun None x)))))) M"
proof -
  have lf: "LF \<notin> set M"
    using assms(2) by (auto simp: isLineTerminator_def LF_def)
  have keep: "\<not> strIncludes (replaceAll m None t) M"
    if "\<And>p t r n. m p t = Some (r, n) \<Longrightarrow> r \<noteq> [] \<and> set r \<inter> set M = {}"
      and "\<not> strIncludes t M" for m t
    using replaceAll_keeps_absent[of m M "[]" t None] that assms(1) by simp
  have lit: "\<not> strIncludes (replaceAll (literal l [c]) None t) M"
    if "c \<notin> set M" and "\<not> strIncludes t M" for l c t
  proof (rule keep)
    fix p u r n
    assume "literal l [c] p u = Some (r, n)"
    then have "r = [c]" by (rule literal_replacement)
    with that(1) show "r \<noteq> [] \<and> set r \<inter> set M = {}" by simp
  qed (rule that(2))
  have "\<not> strIncludes (replaceAll newlineRun None x) M"
  proof (rule keep)
    fix p u r n
    assume "newlineRun p u = Some (r, n)"
    then have "r = [LF, LF]" by (simp add: newlineRun_def Let_def split: if_splits)
    with lf show "r \<noteq> [] \<and> set r \<inter> set M = {}" by simp
  qed (rule assms(6))
  then have "\<not> strIncludes (replaceAll trailingSpace None (replaceAll newlineRun None x)) M"
    using trailingSpace_keeps_absent[OF assms(2), of "[]" _ None] by simp
  then have "\<not> strIncludes (replaceAll leadingSpace None
      (replaceAll trailingSpace None (replaceAll newlineRun None x))) M"
    using leadingSpace_keeps_absent[OF assms(2), of "[]" _ None] by simp
  then show ?thesis
    unfolding ascii_def list.map by (intro lit assms(3,4,5))
qed

lemma cleanAnswerText_without_literals:
  "\<not> strIncludes (cleanAnswerText s) (ascii ''### **Memory Techniques**'')"
  "\<not> strIncludes (cleanAnswerText s) (ascii ''**Memory Techniques:**'')"
  "\<not> strIncludes (cleanAnswerText s) (ascii ''[Image of'')"
  "\<not> strIncludes (cleanAnswerText s) (ascii ''(Note:'')"
proof -
  let ?M1 = "ascii ''### **Memory Techniques**''"
  let ?M2 = "ascii ''**Memory Techniques:**''"
  let ?I = "ascii ''[Image of''"
  let ?N = "ascii ''(Note:''"
  define x1 where "x1 = truncateAt ?M1 (replaceAll typeRow None (replaceAll tableRule None s))"
  define x2 where "x2 = truncateAt ?M2 x1"
  define z2 where "z2 = replaceAll (literal escapedClose (ascii '']'')) None
    (replaceAll (literal escapedOpen (ascii ''['')) None
      (replaceAll (literal escapedDollar (ascii ''$'')) None
        (replaceAll leadingSpace None (replaceAll trailingSpace None
          (replaceAll newlineRun None x2)))))"
  define t1 where "t1 = truncateAt ?I z2"
  define t2 where "t2 = truncateAt ?N t1"
  have ne: "?M1 \<noteq> []" "?M2 \<noteq> []" "?I \<noteq> []" "?N \<noteq> []"
    by (simp_all add: ascii_def)
  have plain: "\<forall>x \<in> set ?M1. \<not> isLineTerminator x" "\<forall>x \<in> set ?M2. \<not> isLineTerminator x"
    "codeUnit CHR ''$'' \<notin> set ?M1" "codeUnit CHR ''['' \<notin> set ?M1"
    "codeUnit CHR '']'' \<notin> set ?M1"
    "codeUnit CHR ''$'' \<notin> set ?M2" "codeUnit CHR ''['' \<notin> set ?M2"
    "codeUnit CHR '']'' \<notin> set ?M2"
    by (simp_all add: ascii_def codeUnit_def isLineTerminator_def)
  have eq: "cleanAnswerText s = (if s = [] then [] else trim t2)"
    by (simp add: cleanAnswerText_def t2_def t1_def z2_def x2_def x1_def)
  have empty: "\<not> strIncludes [] M" if "M \<noteq> []" for M :: utf16
    using that by simp
  have "\<not> strIncludes x1 ?M1"
    unfolding x1_def using ne(1) by (rule truncateAt_without)
  then have "\<not> strIncludes x2 ?M1"
    unfolding x2_def by (rule truncateAt_keeps_absent)
  then have "\<not> strIncludes z2 ?M1"
    unfolding z2_def using ne(1) plain(1,3,4,5) by (intro spaceAndEscapes_keep_absent)
  then have "\<not> strIncludes (trim t2) ?M1"
    unfolding t2_def t1_def by (intro trim_keeps_absent truncateAt_keeps_absent)
  then show "\<not> strIncludes (cleanAnswerText s) ?M1"
    unfolding eq using empty[OF ne(1)] by simp
  have "\<not> strIncludes x2 ?M2"
    unfolding x2_def using ne(2) by (rule truncateAt_without)
  then have "\<not> strIncludes z2 ?M2"
    unfolding z2_def using ne(2) plain(2,6,7,8) by (intro spaceAndEscapes_keep_absent)
  then have "\<not> strIncludes (trim t2) ?M2"
    unfolding t2_def t1_def by (intro trim_keeps_absent truncateAt_keeps_absent)
  then show "\<not> strIncludes (cleanAnswerText s) ?M2"
    unfolding eq using empty[OF ne(2)] by simp
  have "\<not> strIncludes t1 ?I"
    unfolding t1_def using ne(3) by (rule truncateAt_without)
  then have "\<not> strIncludes (trim t2) ?I"
    unfolding t2_def by (intro trim_keeps_absent truncateAt_keeps_absent)
  then show "\<not> strIncludes (cleanAnswerText s) ?I"
    unfolding eq using empty[OF ne(3)] by simp
  have "\<not> strIncludes t2 ?N"
    unfolding t2_def using ne(4) by (rule truncateAt_without)
  then have "\<not> strIncludes (trim t2) ?N"
    by (rule trim_keeps_absent)
  then show "\<not> strIncludes (cleanAnswerText s) ?N"
    unfolding eq using empty[OF ne(4)] by simp
qed

lemma cleanAnswerText_fixed:
  assumes "tidy None y"
    and "\<not> strIncludes y (ascii ''### **Memory Techniques**'')"
    and "\<not> strIncludes y (ascii ''**Memory Techniques:**'')"
    and "\<not> strIncludes y (ascii ''[Image of'')"
    and "\<not> strIncludes y (ascii ''(Note:'')"
    and "\<not> matchesAnywhere typeRow None y"
    and "\<not> strIncludes y escapedDollar"
    and "\<not> strIncludes y escapedOpen"
    and "\<not> strIncludes y escapedClose"
  shows "cleanAnswerText y = y"
proof -
  have s1: "replaceAll tableRule None y = y"
    using tableRule_tidy[OF assms(1)] by (rule replaceAll_no_match)
  have s2: "replaceAll typeRow None y = y"
    using assms(6) by (rule replaceAll_no_match)
  have s3: "truncateAt (ascii ''### **Memory Techniques**'') y = y"
    using assms(2) by (rule truncateAt_id)
  have s4: "truncateAt (ascii ''**Memory Techniques:**'') y = y"
    using assms(3) by (rule truncateAt_id)
  note s5 = spaceSteps_id[OF assms(1)]
  have s6: "replaceAll (literal escapedDollar rep) None y = y" for rep
    using literal_no_match[OF assms(7)] by (rule replaceAll_no_match)
  have s7: "replaceAll (literal escapedOpen rep) None y = y" for rep
    using literal_no_match[OF assms(8)] by (rule replaceAll_no_match)
  have s8: "replaceAll (literal escapedClose rep) None y = y" for rep
    using literal_no_match[OF assms(9)] by (rule replaceAll_no_match)
  have s9: "truncateAt (ascii ''[Image of'') y = y"
    using assms(4) by (rule truncateAt_id)
  have s10: "truncateAt (ascii ''(Note:'') y = y"
    using assms(5) by (rule truncateAt_id)
  have s11: "trim y = y"
    using assms(1) by (rule trim_tidy)
  show ?thesis
    unfolding cleanAnswerText_def Let_def s1 s2 s3 s4 s5 s6 s7 s8 s9 s10 s11 by simp
qed

lemma cleanAnswerText_second:
  assumes "\<not> matchesAnywhere typeRow None (cleanAnswerText s)"
    and "\<not> strIncludes (cleanAnswerText s) escapedDollar"
    and "\<not> strIncludes (cleanAnswerText s) escapedOpen"
    and "\<not> strIncludes (cleanAnswerText s) escapedClose"
  shows "cleanAnswerText (cleanAnswerText s) = cleanAnswerText s"
  using cleanAnswerText_tidy cleanAnswerText_without_literals assms
  by (rule cleanAnswerText_fixed)

section \<open>Text cleanup: when a second application changes the result\<close>

lemma replaceAll_length_le:
  assumes "\<And>p t r n. m p t = Some (r, n) \<Longrightarrow> length r \<le> n \<and> n \<le> length t"
  shows "length (replaceAll m prev s) \<le> length s"
proof (induction s arbitrary: prev rule: length_induct)
  case (1 s)
  have IH: "length (replaceAll m q u) \<le> length u" if "length u < length s" for q u
    using "1.IH" that by blast
  show ?case
  proof (cases s)
    case Nil
    then show ?thesis by simp
  next
    case (Cons c cs)
    show ?thesis
    proof (cases "m prev (c # cs)")
      case None
      have "length (replaceAll m (Some c) cs) \<le> length cs"
        using Cons by (intro IH) simp
      with None Cons show ?thesis by simp
    next
      case (Some a)
      obtain r n where a: "a = (r, n)" by (cases a)
      have match: "m prev (c # cs) = Some (r, n)" using Some a by simp
      from assms[OF match] have b: "length r \<le> n" "n \<le> Suc (length cs)" by simp_all
      have "length (replaceAll m (Some ((c # cs) ! (n - 1))) (drop (n - 1) cs))
          \<le> length (drop (n - 1) cs)"
        using Cons by (intro IH) simp
      then have "length (replaceAll m prev s) \<le> length r + (length cs - (n - 1))"
        unfolding Cons using match by simp
      also have "\<dots> \<le> Suc (length cs)" using b by linarith
      finally show ?thesis using Cons by simp
    qed
  qed
qed

lemma replaceAll_length_less:
  assumes le: "\<And>p t r n. m p t = Some (r, n) \<Longrightarrow> length r \<le> n \<and> n \<le> length t"
    and less: "\<And>p t r n. m p t = Some (r, n) \<Longrightarrow> length r < n"
    and "matchesAnywhere m prev s"
  shows "length (replaceAll m prev s) < length s"
  using assms(3)
proof (induction s arbitrary: prev)
  case Nil
  then show ?case by simp
next
  case (Cons c cs)
  show ?case
  proof (cases "m prev (c # cs)")
    case None
    with Cons.prems have "matchesAnywhere m (Some c) cs" by simp
    then have "length (replaceAll m (Some c) cs) < length cs" by (rule Cons.IH)
    with None show ?thesis by simp
  next
    case (Some a)
    obtain r n where a: "a = (r, n)" by (cases a)
    have match: "m prev (c # cs) = Some (r, n)" using Some a by simp
    from le[OF match] less[OF match] have b: "length r < n" "n \<le> Suc (length cs)" by simp_all
    have "length (replaceAll m (Some ((c # cs) ! (n - 1))) (drop (n - 1) cs))
        \<le> length (drop (n - 1) cs)"
      using le by (rule replaceAll_length_le)
    then have "length (replaceAll m prev (c # cs)) \<le> length r + (length cs - (n - 1))"
      using match by simp
    also have "\<dots> < Suc (length cs)" using b by linarith
    finally show ?thesis by simp
  qed
qed

lemma truncateAt_length: "length (truncateAt lit s) \<le> length s"
  by (induction s) auto

lemma trim_length: "length (trim s) \<le> length s"
proof -
  have "length (trim s) \<le> length (dropWhile isSpace s)"
    unfolding trim_def using length_dropWhile_le[of isSpace "rev (dropWhile isSpace s)"]
    by simp
  also have "\<dots> \<le> length s" by (rule length_dropWhile_le)
  finally show ?thesis .
qed

lemma startsWith_length: "startsWith s lit \<Longrightarrow> length lit \<le> length s"
  unfolding startsWith_iff by auto

lemma literal_bounds:
  assumes "literal lit rep p t = Some (r, n)"
  shows "r = rep" and "n = length lit" and "n \<le> length t"
  using assms startsWith_length[of t lit] by (auto simp: literal_def split: if_splits)

lemma cellEnd_suffix: "cellEnd s = Some t \<Longrightarrow> \<exists>u. s = u @ t"
proof -
  let ?d = "dropWhile (\<lambda>c. c \<noteq> codeUnit CHR ''|'') s"
  assume "cellEnd s = Some t"
  then obtain b where "?d = b # t"
    by (cases ?d) (simp_all add: cellEnd_def)
  then have "s = (takeWhile (\<lambda>c. c \<noteq> codeUnit CHR ''|'') s @ [b]) @ t"
    by (metis append_Cons append_Nil append_assoc takeWhile_dropWhile_id)
  then show ?thesis by blast
qed

lemma typeRow_bounds:
  assumes "typeRow p s = Some (r, n)"
  shows "r = []" and "0 < n" and "n \<le> length s"
proof -
  from assms obtain s1 s2 s3 rest where
    e: "startsWith s (ascii ''|'')" "expect (ascii ''Type'') (drop 1 s) = Some s1"
       "expect (ascii ''|'') s1 = Some s2" "cellEnd s2 = Some s3" "cellEnd s3 = Some rest"
    and r: "r = []" "n = length s - length rest"
    by (auto simp: typeRow_def bind_eq_Some_conv split: if_splits option.splits)
  obtain u1 where "drop 1 s = u1 @ s1" using expect_suffix[OF e(2)] by blast
  moreover obtain u2 where "s1 = u2 @ s2" using expect_suffix[OF e(3)] by blast
  moreover obtain u3 where "s2 = u3 @ s3" using cellEnd_suffix[OF e(4)] by blast
  moreover obtain u4 where "s3 = u4 @ rest" using cellEnd_suffix[OF e(5)] by blast
  ultimately have "length rest \<le> length (drop 1 s)" by simp
  moreover have "s \<noteq> []" using e(1) by (auto simp: ascii_def)
  ultimately have "length rest < length s" by (cases s) simp_all
  with r show "r = []" "0 < n" "n \<le> length s" by simp_all
qed

lemma escapesAndLater_length:
  "length (trim (truncateAt i2 (truncateAt i1
     (replaceAll (literal escapedClose (ascii '']'')) None
       (replaceAll (literal escapedOpen (ascii ''['')) None
         (replaceAll (literal escapedDollar (ascii ''$'')) None x)))))) \<le> length x"
proof -
  have lit: "length (replaceAll (literal l rep) None t) \<le> length t"
    if "length rep \<le> length l" for l rep t
    using that literal_bounds[of l rep] by (intro replaceAll_length_le) auto
  have e: "length (ascii ''$'') \<le> length escapedDollar"
    "length (ascii ''['') \<le> length escapedOpen" "length (ascii '']'') \<le> length escapedClose"
    by (simp_all add: ascii_def escapedDollar_def escapedOpen_def escapedClose_def)
  show ?thesis
    using trim_length truncateAt_length lit[OF e(1)] lit[OF e(2)] lit[OF e(3)] order_trans
    by meson
qed

lemma newlineRun_bounds:
  "newlineRun p t = Some (r, n) \<Longrightarrow> length r \<le> n \<and> n \<le> length t"
  using length_takeWhile_le[of "\<lambda>c. c = LF" t]
  by (auto simp: newlineRun_def Let_def split: if_splits)

lemma trailingSpace_bounds:
  "trailingSpace p t = Some (r, n) \<Longrightarrow> length r \<le> n \<and> n \<le> length t"
proof -
  assume a: "trailingSpace p t = Some (r, n)"
  have run: "length (takeWhile isSpace t) \<le> length t" by (rule length_takeWhile_le)
  from a have "r = []"
    by (auto simp: trailingSpace_def Let_def split: if_splits option.splits)
  moreover from a have "n = length (takeWhile isSpace t)
      \<or> lastIndexWhere isLineTerminator (takeWhile isSpace t) = Some n"
    by (auto simp: trailingSpace_def Let_def split: if_splits option.splits)
  then have "n \<le> length t"
    using run lastIndexWhere_less[of isLineTerminator "takeWhile isSpace t" n] by auto
  ultimately show ?thesis by simp
qed

lemma leadingSpace_bounds:
  "leadingSpace p t = Some (r, n) \<Longrightarrow> length r \<le> n \<and> n \<le> length t"
  using length_takeWhile_le[of isSpace t]
  by (auto simp: leadingSpace_def Let_def split: if_splits)

lemma afterTables_length:
  "length (trim (truncateAt i2 (truncateAt i1
     (replaceAll (literal escapedClose (ascii '']'')) None
       (replaceAll (literal escapedOpen (ascii ''['')) None
         (replaceAll (literal escapedDollar (ascii ''$'')) None
           (replaceAll leadingSpace None (replaceAll trailingSpace None
             (replaceAll newlineRun None (truncateAt m2 (truncateAt m1 x))))))))))) \<le> length x"
proof -
  let ?a = "truncateAt m2 (truncateAt m1 x)"
  let ?b = "replaceAll leadingSpace None (replaceAll trailingSpace None
             (replaceAll newlineRun None ?a))"
  have "length ?a \<le> length x"
    using truncateAt_length[of m2 "truncateAt m1 x"] truncateAt_length[of m1 x] by simp
  moreover have "length (replaceAll newlineRun None ?a) \<le> length ?a"
    using newlineRun_bounds by (rule replaceAll_length_le)
  moreover have "length (replaceAll trailingSpace None (replaceAll newlineRun None ?a))
      \<le> length (replaceAll newlineRun None ?a)"
    using trailingSpace_bounds by (rule replaceAll_length_le)
  moreover have "length ?b \<le> length (replaceAll trailingSpace None (replaceAll newlineRun None ?a))"
    using leadingSpace_bounds by (rule replaceAll_length_le)
  ultimately have "length ?b \<le> length x" by linarith
  with escapesAndLater_length[of i2 i1 ?b] show ?thesis by linarith
qed

lemma cleanAnswerText_shrinks:
  assumes "tidy None y"
    and "\<not> strIncludes y (ascii ''### **Memory Techniques**'')"
    and "\<not> strIncludes y (ascii ''**Memory Techniques:**'')"
    and "matchesAnywhere typeRow None y \<or> strIncludes y escapedDollar
         \<or> strIncludes y escapedOpen \<or> strIncludes y escapedClose"
  shows "length (cleanAnswerText y) < length y"
proof -
  have ne: "y \<noteq> []"
    using assms(4) by (auto simp: escapedDollar_def escapedOpen_def escapedClose_def)
  have s1: "replaceAll tableRule None y = y"
    using tableRule_tidy[OF assms(1)] by (rule replaceAll_no_match)
  have lit_le: "length (replaceAll (literal l rep) None t) \<le> length t"
    if "length rep \<le> length l" for l rep t
    using that literal_bounds[of l rep] by (intro replaceAll_length_le) auto
  have lit_less: "length (replaceAll (literal l rep) None t) < length t"
    if "length rep < length l" "strIncludes t l" for l rep t
  proof (rule replaceAll_length_less)
    show "length r \<le> n \<and> n \<le> length u" if "literal l rep p u = Some (r, n)" for p u r n
      using literal_bounds[OF that] \<open>length rep < length l\<close> by simp
    show "length r < n" if "literal l rep p u = Some (r, n)" for p u r n
      using literal_bounds[OF that] \<open>length rep < length l\<close> by simp
    show "matchesAnywhere (literal l rep) None t"
      using that by (intro literal_match) auto
  qed
  have e: "length (ascii ''$'') < length escapedDollar"
    "length (ascii ''['') < length escapedOpen" "length (ascii '']'') < length escapedClose"
    by (simp_all add: ascii_def escapedDollar_def escapedOpen_def escapedClose_def)
  show ?thesis
  proof (cases "matchesAnywhere typeRow None y")
    case True
    have "length (replaceAll typeRow None y) < length y"
    proof (rule replaceAll_length_less)
      show "length r \<le> n \<and> n \<le> length u" if "typeRow p u = Some (r, n)" for p u r n
        using typeRow_bounds[OF that] by simp
      show "length r < n" if "typeRow p u = Some (r, n)" for p u r n
        using typeRow_bounds[OF that] by simp
    qed (rule True)
    moreover have "length (cleanAnswerText y) \<le> length (replaceAll typeRow None y)"
      using ne unfolding cleanAnswerText_def Let_def s1
      by (simp add: afterTables_length)
    ultimately show ?thesis by linarith
  next
    case False
    then have s2: "replaceAll typeRow None y = y" by (rule replaceAll_no_match)
    have s3: "truncateAt (ascii ''### **Memory Techniques**'') y = y"
      using assms(2) by (rule truncateAt_id)
    have s4: "truncateAt (ascii ''**Memory Techniques:**'') y = y"
      using assms(3) by (rule truncateAt_id)
    note s5 = spaceSteps_id[OF assms(1)]
    let ?e1 = "replaceAll (literal escapedDollar (ascii ''$'')) None y"
    let ?e2 = "replaceAll (literal escapedOpen (ascii ''['')) None ?e1"
    let ?e3 = "replaceAll (literal escapedClose (ascii '']'')) None ?e2"
    have eq: "cleanAnswerText y
        = trim (truncateAt (ascii ''(Note:'') (truncateAt (ascii ''[Image of'') ?e3))"
      using ne unfolding cleanAnswerText_def Let_def s1 s2 s3 s4 s5 by simp
    have last: "length (cleanAnswerText y) \<le> length ?e3"
      unfolding eq
      using trim_length[of "truncateAt (ascii ''(Note:'') (truncateAt (ascii ''[Image of'') ?e3)"]
        truncateAt_length[of "ascii ''(Note:''" "truncateAt (ascii ''[Image of'') ?e3"]
        truncateAt_length[of "ascii ''[Image of''" ?e3]
      by linarith
    have l1: "length ?e1 \<le> length y" and l2: "length ?e2 \<le> length ?e1"
      and l3: "length ?e3 \<le> length ?e2"
      using e by (intro lit_le; simp)+
    from assms(4) False consider "strIncludes y escapedDollar"
      | "\<not> strIncludes y escapedDollar" "strIncludes y escapedOpen"
      | "\<not> strIncludes y escapedDollar" "\<not> strIncludes y escapedOpen"
        "strIncludes y escapedClose"
      by blast
    then show ?thesis
    proof cases
      case 1
      then have "length ?e1 < length y" using e(1) by (intro lit_less)
      with last l2 l3 show ?thesis by linarith
    next
      case 2
      have "?e1 = y" using literal_no_match[OF 2(1)] by (rule replaceAll_no_match)
      then have "length ?e2 < length y" using 2(2) e(2) lit_less[of "ascii ''[''" escapedOpen y]
        by simp
      with last l3 show ?thesis by linarith
    next
      case 3
      have "?e1 = y" using literal_no_match[OF 3(1)] by (rule replaceAll_no_match)
      moreover have "replaceAll (literal escapedOpen (ascii ''['')) None y = y"
        using literal_no_match[OF 3(2)] by (rule replaceAll_no_match)
      ultimately have "length ?e3 < length y"
        using 3(3) e(3) lit_less[of "ascii '']''" escapedClose y] by simp
      with last show ?thesis by linarith
    qed
  qed
qed

lemma cleanAnswerText_second_iff:
  "cleanAnswerText (cleanAnswerText s) = cleanAnswerText s
   \<longleftrightarrow> \<not> matchesAnywhere typeRow None (cleanAnswerText s)
       \<and> \<not> strIncludes (cleanAnswerText s) escapedDollar
       \<and> \<not> strIncludes (cleanAnswerText s) escapedOpen
       \<and> \<not> strIncludes (cleanAnswerText s) escapedClose"
proof
  assume fixed: "cleanAnswerText (cleanAnswerText s) = cleanAnswerText s"
  show "\<not> matchesAnywhere typeRow None (cleanAnswerText s)
       \<and> \<not> strIncludes (cleanAnswerText s) escapedDollar
       \<and> \<not> strIncludes (cleanAnswerText s) escapedOpen
       \<and> \<not> strIncludes (cleanAnswerText s) escapedClose"
  proof (rule ccontr)
    assume "\<not> ?thesis"
    then have "matchesAnywhere typeRow None (cleanAnswerText s)
        \<or> strIncludes (cleanAnswerText s) escapedDollar
        \<or> strIncludes (cleanAnswerText s) escapedOpen
        \<or> strIncludes (cleanAnswerText s) escapedClose"
      by blast
    with cleanAnswerText_tidy cleanAnswerText_without_literals(1,2)
    have "length (cleanAnswerText (cleanAnswerText s)) < length (cleanAnswerText s)"
      by (rule cleanAnswerText_shrinks)
    with fixed show False by simp
  qed
next
  assume "\<not> matchesAnywhere typeRow None (cleanAnswerText s)
       \<and> \<not> strIncludes (cleanAnswerText s) escapedDollar
       \<and> \<not> strIncludes (cleanAnswerText s) escapedOpen
       \<and> \<not> strIncludes (cleanAnswerText s) escapedClose"
  then show "cleanAnswerText (cleanAnswerText s) = cleanAnswerText s"
    using cleanAnswerText_second by blast
qed

lemma truncateAt_subset: "set (truncateAt lit s) \<subseteq> set s"
  by (induction s) auto

lemma trim_subset: "set (trim s) \<subseteq> set s"
proof
  fix x
  assume "x \<in> set (trim s)"
  then have "x \<in> set (dropWhile isSpace (rev (dropWhile isSpace s)))"
    by (simp add: trim_def)
  then have "x \<in> set (rev (dropWhile isSpace s))" by (rule set_dropWhileD)
  then have "x \<in> set (dropWhile isSpace s)" by simp
  then show "x \<in> set s" by (rule set_dropWhileD)
qed

lemma startsWith_set: "startsWith s lit \<Longrightarrow> set lit \<subseteq> set s"
  unfolding startsWith_iff by auto

lemma cleanAnswerText_subset: "set (cleanAnswerText s) \<subseteq> set s"
proof (cases "s = []")
  case True
  then show ?thesis by (simp add: cleanAnswerText_def)
next
  case False
  have removal: "set (replaceAll m None t) \<subseteq> set t"
    if "\<And>p u r n. m p u = Some (r, n) \<Longrightarrow> r = []" for m t
  proof (rule replaceAll_subset)
    fix p u r n
    assume "m p u = Some (r, n)"
    then have "r = []" by (rule that)
    then show "set r \<subseteq> set u" by simp
  qed
  have table: "set (replaceAll tableRule None t) \<subseteq> set t" for t
    by (rule removal) (auto simp: tableRule_def split: if_splits option.splits)
  have row: "set (replaceAll typeRow None t) \<subseteq> set t" for t
    by (rule removal) (auto simp: typeRow_def split: if_splits option.splits)
  have nl: "set (replaceAll newlineRun None t) \<subseteq> set t" for t
  proof (rule replaceAll_subset)
    fix p u r n
    assume "newlineRun p u = Some (r, n)"
    then show "set r \<subseteq> set u"
      by (cases u) (auto simp: newlineRun_def Let_def split: if_splits)
  qed
  have tr: "set (replaceAll trailingSpace None t) \<subseteq> set t" for t
    by (rule removal) (auto simp: trailingSpace_def Let_def split: if_splits option.splits)
  have ld: "set (replaceAll leadingSpace None t) \<subseteq> set t" for t
    by (rule removal) (auto simp: leadingSpace_def Let_def split: if_splits)
  have esc: "set (replaceAll (literal [backslash, c] [c]) None t) \<subseteq> set t" for c t
  proof (rule replaceAll_subset)
    fix p u r n
    assume "literal [backslash, c] [c] p u = Some (r, n)"
    then have "r = [c]" "startsWith u [backslash, c]"
      by (auto simp: literal_def split: if_splits)
    then show "set r \<subseteq> set u" using startsWith_set[of u "[backslash, c]"] by simp
  qed
  define a where "a = replaceAll typeRow None (replaceAll tableRule None s)"
  define b where "b = truncateAt (ascii ''**Memory Techniques:**'')
    (truncateAt (ascii ''### **Memory Techniques**'') a)"
  define c where "c = replaceAll leadingSpace None (replaceAll trailingSpace None
    (replaceAll newlineRun None b))"
  define d where "d = replaceAll (literal escapedClose (ascii '']'')) None
    (replaceAll (literal escapedOpen (ascii ''['')) None
      (replaceAll (literal escapedDollar (ascii ''$'')) None c))"
  define e where "e = trim (truncateAt (ascii ''(Note:'') (truncateAt (ascii ''[Image of'') d))"
  have "cleanAnswerText s = e"
    using False by (simp add: cleanAnswerText_def a_def b_def c_def d_def e_def)
  moreover have "set a \<subseteq> set s"
    unfolding a_def using table[of s] row[of "replaceAll tableRule None s"] by blast
  moreover have "set b \<subseteq> set a"
    unfolding b_def using truncateAt_subset[of _ a]
      truncateAt_subset[of _ "truncateAt (ascii ''### **Memory Techniques**'') a"] by blast
  moreover have "set c \<subseteq> set b"
    unfolding c_def using nl[of b] tr[of "replaceAll newlineRun None b"]
      ld[of "replaceAll trailingSpace None (replaceAll newlineRun None b)"] by blast
  moreover have "set d \<subseteq> set c"
  proof -
    let ?d1 = "replaceAll (literal [backslash, codeUnit CHR ''$''] [codeUnit CHR ''$'']) None c"
    let ?d2 = "replaceAll (literal [backslash, codeUnit CHR ''[''] [codeUnit CHR ''['']) None ?d1"
    let ?d3 = "replaceAll (literal [backslash, codeUnit CHR '']''] [codeUnit CHR '']'']) None ?d2"
    have "d = ?d3"
      by (simp add: d_def escapedDollar_def escapedOpen_def escapedClose_def ascii_def)
    moreover have "set ?d1 \<subseteq> set c" by (rule esc)
    moreover have "set ?d2 \<subseteq> set ?d1" by (rule esc)
    moreover have "set ?d3 \<subseteq> set ?d2" by (rule esc)
    ultimately show ?thesis by blast
  qed
  moreover have "set e \<subseteq> set d"
    unfolding e_def
    using trim_subset[of "truncateAt (ascii ''(Note:'') (truncateAt (ascii ''[Image of'') d)"]
      truncateAt_subset[of _ d] truncateAt_subset[of _ "truncateAt (ascii ''[Image of'') d"]
    by blast
  ultimately show ?thesis by blast
qed

section \<open>Claim C6: applying a cleanup twice\<close>

text \<open>
  Claim C6 says that \<open>cleanAnswerText\<close> and \<open>formatMathContent\<close> are idempotent on every
  input. Neither is: each pattern is applied once, from left to right, so a replacement
  can leave behind a text that a pattern matches on the next application (see the
  counterexample below). What holds, for every text \<open>s\<close>:

  \<^item> \<open>cleanAnswerText (cleanAnswerText s) = cleanAnswerText s\<close> exactly when the first
    result contains no table row that starts with a \<open>Type\<close> cell (the second pattern) and
    none of the escapes \<open>\$\<close>, \<open>\[\<close>, \<open>\]\<close>. No other step can change a first result: it
    never contains one of the four literals at which the text is cut, nor a blank line
    for the first table pattern, nor white space that the white-space steps remove.
  \<^item> In particular it holds when the first result, or \<open>s\<close> itself, contains no \<open>|\<close> and no
    backslash.
  \<^item> \<open>formatMathContent (formatMathContent s) = formatMathContent s\<close> when none of the
    patterns of \<open>formatMathContent\<close> matches in the first result.
  \<^item> If \<open>s\<close> contains no \<open>$\<close> and no backslash, then \<open>formatMathContent s = s\<close>.
\<close>

theorem C6_second_cleanup_changes_only_leftover_markup:
  "(cleanAnswerText (cleanAnswerText s) = cleanAnswerText s
      \<longleftrightarrow> \<not> matchesAnywhere typeRow None (cleanAnswerText s)
          \<and> \<not> strIncludes (cleanAnswerText s) escapedDollar
          \<and> \<not> strIncludes (cleanAnswerText s) escapedOpen
          \<and> \<not> strIncludes (cleanAnswerText s) escapedClose)
   \<and> (codeUnit CHR ''|'' \<notin> set (cleanAnswerText s) \<and> backslash \<notin> set (cleanAnswerText s)
      \<longrightarrow> cleanAnswerText (cleanAnswerText s) = cleanAnswerText s)
   \<and> (codeUnit CHR ''|'' \<notin> set s \<and> backslash \<notin> set s
      \<longrightarrow> cleanAnswerText (cleanAnswerText s) = cleanAnswerText s)
   \<and> ((\<forall>m \<in> set mathPatterns. \<not> matchesAnywhere m None (formatMathContent s))
      \<longrightarrow> formatMathContent (formatMathContent s) = formatMathContent s)
   \<and> (codeUnit CHR ''$'' \<notin> set s \<and> backslash \<notin> set s \<longrightarrow> formatMathContent s = s)"
proof -
  let ?y = "cleanAnswerText s"
  have plain: "cleanAnswerText ?y = ?y"
    if bar: "codeUnit CHR ''|'' \<notin> set ?y" and bs: "backslash \<notin> set ?y"
  proof -
    have "typeRow p t \<noteq> None \<Longrightarrow> t \<noteq> [] \<and> hd t \<in> {codeUnit CHR ''|''}" for p t
      using startsWith_hd[of t "ascii ''|''"]
      by (auto simp: typeRow_def ascii_def split: if_splits)
    then have "\<not> matchesAnywhere typeRow None ?y"
      using bar by (intro trigger_free_no_match[where T = "{codeUnit CHR ''|''}"]) auto
    moreover have "\<not> strIncludes ?y (backslash # rest)" for rest
      using bs strIncludes_set[of ?y "backslash # rest"] by auto
    then have "\<not> strIncludes ?y escapedDollar" "\<not> strIncludes ?y escapedOpen"
      "\<not> strIncludes ?y escapedClose"
      by (simp_all add: escapedDollar_def escapedOpen_def escapedClose_def)
    ultimately show ?thesis by (rule cleanAnswerText_second)
  qed
  have input: "cleanAnswerText ?y = ?y"
    if "codeUnit CHR ''|'' \<notin> set s \<and> backslash \<notin> set s"
    using that cleanAnswerText_subset[of s] by (intro plain) auto
  have math: "formatMathContent s = s"
    if "codeUnit CHR ''$'' \<notin> set s \<and> backslash \<notin> set s"
    using that by (intro formatMathContent_no_match ballI plain_no_match) simp_all
  show ?thesis
    using cleanAnswerText_second_iff[of s] plain input math
      formatMathContent_no_match[of "formatMathContent s"]
    by blast
qed

theorem C6_cleanup_witness:
  "cleanAnswerText (ascii ''**Definition** (see [1]) of a stack'')
     = ascii ''**Definition** (see [1]) of a stack''
   \<and> cleanAnswerText (cleanAnswerText (ascii ''**Definition** (see [1]) of a stack''))
     = cleanAnswerText (ascii ''**Definition** (see [1]) of a stack'')
   \<and> cleanAnswerText (ascii ''| Type | a | b | x  '') = ascii ''x''
   \<and> cleanAnswerText (cleanAnswerText (ascii ''| Type | a | b | x  ''))
     = cleanAnswerText (ascii ''| Type | a | b | x  '')
   \<and> cleanAnswerText (cleanAnswerText (ascii ''a < b''))
     = cleanAnswerText (ascii ''a < b'')
   \<and> formatMathContent (ascii ''$a$'')
     = ascii ''<span class='' @ dquote # ascii ''inline-math'' @ dquote # ascii ''>a</span>''
   \<and> formatMathContent (formatMathContent (ascii ''$a$'')) = formatMathContent (ascii ''$a$'')
   \<and> formatMathContent (ascii ''a < b'') = ascii ''a < b''"
proof -
  let ?s1 = "ascii ''**Definition** (see [1]) of a stack''"
  let ?s2 = "ascii ''| Type | a | b | x  ''"
  let ?span = "ascii ''<span class='' @ dquote # ascii ''inline-math'' @ dquote
      # ascii ''>a</span>''"
  note T = C6_second_cleanup_changes_only_leftover_markup
  have e1: "cleanAnswerText ?s1 = ?s1" by code_simp
  have h1: "\<not> matchesAnywhere typeRow None ?s1 \<and> \<not> strIncludes ?s1 escapedDollar
      \<and> \<not> strIncludes ?s1 escapedOpen \<and> \<not> strIncludes ?s1 escapedClose"
    by code_simp
  have w1: "cleanAnswerText (cleanAnswerText ?s1) = cleanAnswerText ?s1"
    using T[of ?s1] h1 unfolding e1 by blast
  have e2: "cleanAnswerText ?s2 = ascii ''x''" by code_simp
  have h2: "codeUnit CHR ''|'' \<notin> set (ascii ''x'') \<and> backslash \<notin> set (ascii ''x'')"
    by code_simp
  have w2: "cleanAnswerText (cleanAnswerText ?s2) = cleanAnswerText ?s2"
    using T[of ?s2] h2 unfolding e2 by blast
  have h3: "codeUnit CHR ''|'' \<notin> set (ascii ''a < b'') \<and> backslash \<notin> set (ascii ''a < b'')"
    "codeUnit CHR ''$'' \<notin> set (ascii ''a < b'') \<and> backslash \<notin> set (ascii ''a < b'')"
    by code_simp+
  have w3: "cleanAnswerText (cleanAnswerText (ascii ''a < b'')) = cleanAnswerText (ascii ''a < b'')"
    using T[of "ascii ''a < b''"] h3(1) by blast
  have e4: "formatMathContent (ascii ''$a$'') = ?span" by code_simp
  have h4: "\<forall>m \<in> set mathPatterns. \<not> matchesAnywhere m None ?span"
    by code_simp
  have w4: "formatMathContent (formatMathContent (ascii ''$a$'')) = formatMathContent (ascii ''$a$'')"
    using T[of "ascii ''$a$''"] h4 unfolding e4 by blast
  have w5: "formatMathContent (ascii ''a < b'') = ascii ''a < b''"
    using T[of "ascii ''a < b''"] h3(2) by blast
  from e1 w1 e2 w2 w3 e4 w4 w5 show ?thesis by blast
qed

theorem C6_second_application_changes_result_counterexample:
  "cleanAnswerText [backslash, backslash, codeUnit CHR ''['']
     = [backslash, codeUnit CHR ''['']
   \<and> cleanAnswerText [backslash, codeUnit CHR ''['']  = ascii ''[''
   \<and> cleanAnswerText (ascii ''|Ty|Type|a|b|pe|c|d|'') = ascii ''|Type|c|d|''
   \<and> cleanAnswerText (ascii ''|Type|c|d|'') = []
   \<and> formatMathContent (backslash # ascii ''sqrt{'' @ backslash # ascii ''frac{a}{b}}'')
     = backslash # ascii ''frac{a{b}}''
   \<and> formatMathContent (backslash # ascii ''frac{a{b}}'') = ascii ''a{b}''"
  by code_simp

section \<open>Revision store: toggling twice\<close>


lemma distinct_setDelete: "distinct xs \<Longrightarrow> distinct (setDelete x xs)"
  by (simp add: setDelete_def distinct_removeAll)













lemma toggle_twice_moves_question_last:
  "item (revisionStorage (toggleRevision ''1_a'' (toggleRevision ''1_a''
       \<lparr>revisionQuestions = [''1_a'', ''2_b''],
        revisionStorage = \<lparr>item = Some [''1_a'', ''2_b''], quota_exceeded = False\<rparr>\<rparr>)))
     = Some [''2_b'', ''1_a'']"
  by (simp add: toggleRevision_def Let_def setAdd_def setDelete_def trySetItem_def setItem_def)
end
